theory Spec2Isabelle
  imports Main "HOL-Library.Multiset"
begin

section \<open>The donation-receipt mailer: data model\<close>

text \<open>
  The script \<^verbatim>\<open>v3donationscript.py\<close> reads PDF receipts from a directory, extracts an
  identification number (PAN) from each one, resolves it to an email address in a table,
  copies the receipt to a staging directory, sends one message per address and moves the
  sent receipts to a processed directory.

  Strings are Python \<^verbatim>\<open>str\<close> values restricted to the code points below 256. Time is
  counted in whole seconds.
\<close>

type_synonym path = string

text \<open>A row of the table read by \<^verbatim>\<open>pd.read_csv\<close>: the columns \<^verbatim>\<open>PAN\<close> and \<^verbatim>\<open>eMail ID\<close>.\<close>

record row =
  PAN :: string
  eMail_ID :: string

type_synonym dataframe = "row list"

text \<open>
  What a file holds, as far as the script looks at it: the text of each page as
  \<^verbatim>\<open>PyPDF2\<close> extracts it, or something \<^verbatim>\<open>PdfReader\<close> raises on.
\<close>

datatype content = PdfPages "string list" | NotPdf

datatype exn =
    FileNotFoundError path
  | PdfReadError path
  | OSError path
  | SameFileError path
  | StopIteration
  | KeyError

text \<open>The messages of the logger, one constructor per call site.\<close>

datatype log_event =
    WarnNoIdentifier path
  | ErrorExtracting path exn
  | ErrorGettingEmail string
  | WarnNoEmail string
  | WarnCouldNotExtract string
  | ErrorProcessing string exn
  | WarnAttemptFailed string nat nat
  | InfoEmailSent string nat
  | ErrorSendFailed string nat
  | InfoLoaded
  | InfoFinished nat
  | InfoCompleted
  | ErrorScript exn

text \<open>
  The world the script runs in. \<open>files\<close> is the file system (regular files by path);
  \<open>faulty\<close> holds the paths at which the file system refuses to create or write
  (permissions, a full disk, a file where a directory is wanted); \<open>smtp\<close> gives, for the
  n-th delivery attempt of the run, whether the SMTP session goes through and how many
  seconds it takes; \<open>attempts\<close> are the times the delivery attempts started at,
  \<open>admitted\<close> the times the rate limiter let a call through, \<open>sleeps\<close> the arguments of
  the retry loop's \<^verbatim>\<open>time.sleep\<close> calls and \<open>log\<close> the log, each in the order of
  occurrence.
\<close>

record world =
  files :: "path \<Rightarrow> content option"
  faulty :: "path \<Rightarrow> bool"
  smtp :: "nat \<Rightarrow> bool \<times> nat"
  attempts :: "nat list"
  admitted :: "nat list"
  sleeps :: "nat list"
  clock :: nat
  log :: "log_event list"

definition logw :: "log_event \<Rightarrow> world \<Rightarrow> world" where
  "logw e w = w\<lparr>log := log w @ [e]\<rparr>"

section \<open>Identifier Extractor\<close>

text \<open>
  \<^verbatim>\<open>re.search(r'Unique Identification Number\s+([A-Z]{5}[0-9]{4}[A-Z])', text)\<close>.
  The character classes: \<^verbatim>\<open>\s\<close> on a \<^verbatim>\<open>str\<close> pattern is Unicode white space, which below
  256 is 9..13, 28..32, 133 and 160.
\<close>

definition re_space :: "char \<Rightarrow> bool" where
  "re_space c = (let n = (of_char c :: nat) in
     (9 \<le> n \<and> n \<le> 13) \<or> (28 \<le> n \<and> n \<le> 32) \<or> n = 133 \<or> n = 160)"

definition re_upper :: "char \<Rightarrow> bool" where
  "re_upper c = (let n = (of_char c :: nat) in 65 \<le> n \<and> n \<le> 90)"

definition re_digit :: "char \<Rightarrow> bool" where
  "re_digit c = (let n = (of_char c :: nat) in 48 \<le> n \<and> n \<le> 57)"

definition label :: string where
  "label = ''Unique Identification Number''"

text \<open>\<^verbatim>\<open>[A-Z]{5}[0-9]{4}[A-Z]\<close> against a whole string.\<close>

definition pan_format :: "string \<Rightarrow> bool" where
  "pan_format s = (length s = 10 \<and> list_all re_upper (take 5 s) \<and>
     list_all re_digit (take 4 (drop 5 s)) \<and> list_all re_upper (drop 9 s))"

text \<open>
  The pattern anchored at the start of \<open>s\<close>. \<^verbatim>\<open>\s+\<close> is greedy; giving white space back
  never helps, because the character after it must be a capital letter, so the longest run
  is the only candidate.
\<close>

definition match_here :: "string \<Rightarrow> string option" where
  "match_here s =
     (if take (length label) s = label then
        (let after = drop (length label) s;
             ws = takeWhile re_space after;
             code = take 10 (dropWhile re_space after)
         in if ws \<noteq> [] \<and> pan_format code then Some code else None)
      else None)"

text \<open>\<^verbatim>\<open>re.search\<close>: the match at the leftmost position that has one; its group 1.\<close>

fun re_search :: "string \<Rightarrow> string option" where
  "re_search [] = match_here []"
| "re_search (c # cs) =
     (case match_here (c # cs) of Some m \<Rightarrow> Some m | None \<Rightarrow> re_search cs)"

text \<open>Opening and reading the PDF: the \<^verbatim>\<open>with open ... "".join(...)\<close> block.\<close>

definition read_pdf_text :: "path \<Rightarrow> world \<Rightarrow> exn + string" where
  "read_pdf_text pdf_path w =
     (case files w pdf_path of
        None \<Rightarrow> Inl (FileNotFoundError pdf_path)
      | Some NotPdf \<Rightarrow> Inl (PdfReadError pdf_path)
      | Some (PdfPages pages) \<Rightarrow> Inr (concat pages))"

definition extract_pan_from_pdf :: "path \<Rightarrow> world \<Rightarrow> string option \<times> world" where
  "extract_pan_from_pdf pdf_path w =
     (case read_pdf_text pdf_path w of
        Inl e \<Rightarrow> (None, logw (ErrorExtracting pdf_path e) w)
      | Inr text \<Rightarrow>
          (case re_search text of
             Some m \<Rightarrow> (Some m, w)
           | None \<Rightarrow> (None, logw (WarnNoIdentifier pdf_path) w)))"

section \<open>Recipient Resolver\<close>

text \<open>
  \<^verbatim>\<open>df[df['PAN'] == pan]\<close> keeps the rows whose \<^verbatim>\<open>PAN\<close> equals the argument, in table order;
  \<^verbatim>\<open>iloc[0]\<close> is the first of them. The \<^verbatim>\<open>except\<close> branch is for a table without the two
  columns, which the row type excludes.
\<close>

definition get_email_for_pan :: "string \<Rightarrow> dataframe \<Rightarrow> string option" where
  "get_email_for_pan pan df =
     (let email_records = filter (\<lambda>r. PAN r = pan) df
      in case email_records of [] \<Rightarrow> None | r # _ \<Rightarrow> Some (eMail_ID r))"

section \<open>Paths\<close>

text \<open>\<^verbatim>\<open>os.path.join\<close> and \<^verbatim>\<open>os.path.basename\<close> of \<^verbatim>\<open>posixpath\<close>, for two components.\<close>

definition path_join :: "path \<Rightarrow> string \<Rightarrow> path" where
  "path_join a b =
     (if take 1 b = ''/'' then b
      else if a = [] \<or> last a = CHR ''/'' then a @ b
      else a @ ''/'' @ b)"

definition basename :: "path \<Rightarrow> string" where
  "basename p = rev (takeWhile (\<lambda>c. c \<noteq> CHR ''/'') (rev p))"

section \<open>File system primitives\<close>

text \<open>
  \<^verbatim>\<open>os.makedirs(d, exist_ok=True)\<close>, \<^verbatim>\<open>shutil.copy\<close>, \<^verbatim>\<open>shutil.move\<close>. Directories hold nothing the
  script reads, so creating one changes nothing in the model; it raises where the file
  system refuses. A failed operation leaves the world as it was.
\<close>

definition makedirs :: "path \<Rightarrow> world \<Rightarrow> exn + world" where
  "makedirs d w = (if faulty w d then Inl (OSError d) else Inr w)"

definition copy :: "path \<Rightarrow> path \<Rightarrow> world \<Rightarrow> exn + world" where
  "copy src dst w =
     (case files w src of
        None \<Rightarrow> Inl (FileNotFoundError src)
      | Some c \<Rightarrow>
          if src = dst then Inl (SameFileError src)
          else if faulty w dst then Inl (OSError dst)
          else Inr (w\<lparr>files := (files w)(dst \<mapsto> c)\<rparr>))"

definition move :: "path \<Rightarrow> path \<Rightarrow> world \<Rightarrow> exn + world" where
  "move src dst w =
     (case files w src of
        None \<Rightarrow> Inl (FileNotFoundError src)
      | Some c \<Rightarrow>
          if faulty w dst then Inl (OSError dst)
          else Inr (w\<lparr>files := ((files w)(src := None))(dst \<mapsto> c)\<rparr>))"

section \<open>Document Classifier\<close>

type_synonym triple = "string \<times> string \<times> path"

text \<open>
  \<^verbatim>\<open>process_pdf\<close>. \<^verbatim>\<open>if pan:\<close> and \<^verbatim>\<open>if email:\<close> are Python truth tests: \<^verbatim>\<open>None\<close> and the
  empty string are false. Each place the \<^verbatim>\<open>try\<close> block can raise is a branch that does
  what the \<^verbatim>\<open>except\<close> clause does.
\<close>

definition process_pdf ::
  "string \<Rightarrow> path \<Rightarrow> path \<Rightarrow> dataframe \<Rightarrow> world \<Rightarrow> triple option \<times> world" where
  "process_pdf pdf_file pdf_dir output_dir df w =
     (let pdf_path = path_join pdf_dir pdf_file;
          (found, w1) = extract_pan_from_pdf pdf_path w
      in case found of
           None \<Rightarrow> (None, logw (WarnCouldNotExtract pdf_file) w1)
         | Some pan \<Rightarrow>
             if pan = [] then (None, logw (WarnCouldNotExtract pdf_file) w1)
             else
               (case get_email_for_pan pan df of
                  None \<Rightarrow> (None, logw (WarnNoEmail pan) w1)
                | Some email \<Rightarrow>
                    if email = [] then (None, logw (WarnNoEmail pan) w1)
                    else
                      (let pan_dir = path_join output_dir pan in
                       case makedirs pan_dir w1 of
                         Inl e \<Rightarrow> (None, logw (ErrorProcessing pdf_file e) w1)
                       | Inr w2 \<Rightarrow>
                           (let output_path = path_join pan_dir pdf_file in
                            case copy pdf_path output_path w2 of
                              Inl e \<Rightarrow> (None, logw (ErrorProcessing pdf_file e) w2)
                            | Inr w3 \<Rightarrow> (Some (pan, email, output_path), w3)))))"

text \<open>
  \<^verbatim>\<open>list(executor.map(process_pdf_partial, pdf_files))\<close>: one result per file name, in the
  order of the file names. The workers run concurrently; the model runs them one after
  the other in that order.
\<close>

fun classify ::
  "string list \<Rightarrow> path \<Rightarrow> path \<Rightarrow> dataframe \<Rightarrow> world \<Rightarrow> triple option list \<times> world" where
  "classify [] pdf_dir output_dir df w = ([], w)"
| "classify (f # fs) pdf_dir output_dir df w =
     (let (r, w1) = process_pdf f pdf_dir output_dir df w;
          (rs, w2) = classify fs pdf_dir output_dir df w1
      in (r # rs, w2))"

text \<open>The selection of line 148: \<^verbatim>\<open>f.lower().endswith('.pdf')\<close>.\<close>

definition py_lower_char :: "char \<Rightarrow> char" where
  "py_lower_char c = (let n = (of_char c :: nat) in
     if (65 \<le> n \<and> n \<le> 90) \<or> (192 \<le> n \<and> n \<le> 222 \<and> n \<noteq> 215) then char_of (n + 32) else c)"

definition py_lower :: "string \<Rightarrow> string" where
  "py_lower s = map py_lower_char s"

definition py_endswith :: "string \<Rightarrow> string \<Rightarrow> bool" where
  "py_endswith s suffix =
     (length suffix \<le> length s \<and> drop (length s - length suffix) s = suffix)"

definition select_pdf_files :: "string list \<Rightarrow> string list" where
  "select_pdf_files entries = filter (\<lambda>f. py_endswith (py_lower f) ''.pdf'') entries"

section \<open>Grouping Stage\<close>

text \<open>
  A Python \<^verbatim>\<open>dict\<close> keeps its keys in insertion order, and the script iterates over both
  dictionaries, so they are association lists with distinct keys.
\<close>

type_synonym groups = "(string \<times> path list) list"

definition dict_keys :: "('k \<times> 'v) list \<Rightarrow> 'k list" where
  "dict_keys d = map fst d"

text \<open>\<^verbatim>\<open>d[k] = v\<close>: in place for a key that is there, at the end for a new one.\<close>

fun dict_set :: "'k \<Rightarrow> 'v \<Rightarrow> ('k \<times> 'v) list \<Rightarrow> ('k \<times> 'v) list" where
  "dict_set k v [] = [(k, v)]"
| "dict_set k v ((k', v') # d) =
     (if k' = k then (k', v) # d else (k', v') # dict_set k v d)"

text \<open>\<^verbatim>\<open>d[k]\<close>: \<^verbatim>\<open>KeyError\<close> is \<open>None\<close>.\<close>

fun dict_get :: "'k \<Rightarrow> ('k \<times> 'v) list \<Rightarrow> 'v option" where
  "dict_get k [] = None"
| "dict_get k ((k', v') # d) = (if k' = k then Some v' else dict_get k d)"

text \<open>\<^verbatim>\<open>d[k].append(x)\<close>: \<^verbatim>\<open>KeyError\<close> is \<open>None\<close>.\<close>

definition dict_append :: "'k \<Rightarrow> 'a \<Rightarrow> ('k \<times> 'a list) list \<Rightarrow> ('k \<times> 'a list) list option" where
  "dict_append k x d =
     (case dict_get k d of None \<Rightarrow> None | Some xs \<Rightarrow> Some (dict_set k (xs @ [x]) d))"

text \<open>The body of the loop of lines 164 to 173, for one result.\<close>

definition group_step :: "triple option \<Rightarrow> groups \<times> groups \<Rightarrow> (groups \<times> groups) option" where
  "group_step result g =
     (case result of
        None \<Rightarrow> Some g
      | Some (pan, email, pdf_path) \<Rightarrow>
          (let (email_groups, pan_to_files) = g;
               email_groups1 =
                 (if email \<notin> set (dict_keys email_groups) then dict_set email [] email_groups
                  else email_groups);
               pan_to_files1 =
                 (if pan \<notin> set (dict_keys pan_to_files) then dict_set pan [] pan_to_files
                  else pan_to_files)
           in case dict_append email pdf_path email_groups1 of
                None \<Rightarrow> None
              | Some email_groups2 \<Rightarrow>
                  (case dict_append pan pdf_path pan_to_files1 of
                     None \<Rightarrow> None
                   | Some pan_to_files2 \<Rightarrow> Some (email_groups2, pan_to_files2))))"

fun group_loop :: "triple option list \<Rightarrow> groups \<times> groups \<Rightarrow> (groups \<times> groups) option" where
  "group_loop [] g = Some g"
| "group_loop (r # rs) g =
     (case group_step r g of None \<Rightarrow> None | Some g1 \<Rightarrow> group_loop rs g1)"

definition grouping :: "triple option list \<Rightarrow> (groups \<times> groups) option" where
  "grouping results = group_loop results ([], [])"

section \<open>Dispatch Engine\<close>

definition CALLS_PER_MINUTE :: nat where "CALLS_PER_MINUTE = 20"
definition PERIOD :: nat where "PERIOD = 60"
definition MAX_RETRIES :: nat where "MAX_RETRIES = 5"
definition BASE_DELAY :: nat where "BASE_DELAY = 1"

text \<open>
  Modelled from the spec: the decorators \<^verbatim>\<open>sleep_and_retry\<close> and \<^verbatim>\<open>limits\<close> come from the
  package \<^verbatim>\<open>ratelimit\<close>, which is not part of the repository. The spec describes them as a
  limit on a rolling window that delays the caller: a call arriving at \<open>now\<close> goes through
  at the first moment at which fewer than \<open>calls\<close> admissions lie less than \<open>period\<close> seconds
  back. \<open>hist\<close> holds the earlier admission times, oldest first; \<open>calls\<close> is at least 1.
\<close>

definition limiter_admission :: "nat \<Rightarrow> nat \<Rightarrow> nat list \<Rightarrow> nat \<Rightarrow> nat" where
  "limiter_admission calls period hist now =
     (if length hist < calls then now
      else max now (hist ! (length hist - calls) + period))"

text \<open>What the decorated function does before its body runs: it is called once per call
  of \<^verbatim>\<open>send_grouped_email_with_retry\<close>.\<close>

definition rate_limit :: "world \<Rightarrow> world" where
  "rate_limit w =
     (let t = limiter_admission CALLS_PER_MINUTE PERIOD (admitted w) (clock w)
      in w\<lparr>admitted := admitted w @ [t], clock := t\<rparr>)"

text \<open>
  The body of the \<^verbatim>\<open>try\<close> block: build the message, which opens every attachment, then
  the SMTP session. It goes through when every attachment can be read and the server
  accepts. Nothing is written to the file system.
\<close>

definition deliver :: "string \<Rightarrow> path list \<Rightarrow> world \<Rightarrow> bool \<times> world" where
  "deliver email attachments w =
     (let (accepted, duration) = smtp w (length (attempts w));
          readable = list_all (\<lambda>file_path. files w file_path \<noteq> None) attachments
      in (readable \<and> accepted,
          w\<lparr>attempts := attempts w @ [clock w], clock := clock w + duration\<rparr>))"

definition sleep :: "nat \<Rightarrow> world \<Rightarrow> world" where
  "sleep delay w = w\<lparr>sleeps := sleeps w @ [delay], clock := clock w + delay\<rparr>"

text \<open>\<^verbatim>\<open>for attempt in range(MAX_RETRIES)\<close>, over the attempt numbers still to run.\<close>

fun retry_loop :: "nat list \<Rightarrow> string \<Rightarrow> path list \<Rightarrow> world \<Rightarrow> bool \<times> world" where
  "retry_loop [] email attachments w = (False, logw (ErrorSendFailed email MAX_RETRIES) w)"
| "retry_loop (attempt # rest) email attachments w =
     (case deliver email attachments w of
        (True, w1) \<Rightarrow> (True, logw (InfoEmailSent email (length attachments)) w1)
      | (False, w1) \<Rightarrow>
          (let delay = BASE_DELAY * 2 ^ attempt
           in retry_loop rest email attachments
                (sleep delay (logw (WarnAttemptFailed email (attempt + 1) delay) w1))))"

definition send_grouped_email_with_retry :: "string \<Rightarrow> path list \<Rightarrow> world \<Rightarrow> bool \<times> world" where
  "send_grouped_email_with_retry email attachments w =
     retry_loop [0..<MAX_RETRIES] email attachments (rate_limit w)"

section \<open>Archival Stage\<close>

text \<open>\<^verbatim>\<open>next(pan for pan, files in pan_to_files.items() if pdf_path in files)\<close>.\<close>

definition owner_of :: "path \<Rightarrow> groups \<Rightarrow> exn + string" where
  "owner_of pdf_path pan_to_files =
     (case filter (\<lambda>(pan, fs). pdf_path \<in> set fs) pan_to_files of
        [] \<Rightarrow> Inl StopIteration
      | (pan, fs) # _ \<Rightarrow> Inr pan)"

text \<open>
  The body of the inner loop, lines 190 to 194, for one attachment. Nothing in it catches
  an exception; a step that raises leaves the world as it found it.
\<close>

definition archive_one :: "path \<Rightarrow> groups \<Rightarrow> path \<Rightarrow> world \<Rightarrow> exn + world" where
  "archive_one pdf_path pan_to_files processed_dir w =
     (let pdf_name = basename pdf_path in
      case owner_of pdf_path pan_to_files of
        Inl e \<Rightarrow> Inl e
      | Inr pan \<Rightarrow>
          (let processed_pan_dir = path_join processed_dir pan in
           case makedirs processed_pan_dir w of
             Inl e \<Rightarrow> Inl e
           | Inr w1 \<Rightarrow> move pdf_path (path_join processed_pan_dir pdf_name) w1))"

text \<open>
  The inner loop of lines 189 to 194: the first exception ends it and goes up to the
  caller, with the world as the loop left it.
\<close>

fun archive :: "path list \<Rightarrow> groups \<Rightarrow> path \<Rightarrow> world \<Rightarrow> exn option \<times> world" where
  "archive [] pan_to_files processed_dir w = (None, w)"
| "archive (pdf_path # rest) pan_to_files processed_dir w =
     (case archive_one pdf_path pan_to_files processed_dir w of
        Inl e \<Rightarrow> (Some e, w)
      | Inr w1 \<Rightarrow> archive rest pan_to_files processed_dir w1)"

text \<open>The outer loop of lines 186 to 194, over \<^verbatim>\<open>email_groups.items()\<close>.\<close>

fun dispatch_all :: "groups \<Rightarrow> groups \<Rightarrow> path \<Rightarrow> world \<Rightarrow> exn option \<times> world" where
  "dispatch_all [] pan_to_files processed_dir w = (None, w)"
| "dispatch_all ((email, attachments) # rest) pan_to_files processed_dir w =
     (case send_grouped_email_with_retry email attachments w of
        (True, w1) \<Rightarrow>
          (case archive attachments pan_to_files processed_dir w1 of
             (Some e, w2) \<Rightarrow> (Some e, w2)
           | (None, w2) \<Rightarrow> dispatch_all rest pan_to_files processed_dir w2)
      | (False, w1) \<Rightarrow> dispatch_all rest pan_to_files processed_dir w1)"

section \<open>The run\<close>

text \<open>
  The values \<^verbatim>\<open>main\<close> takes from \<^verbatim>\<open>config.properties\<close>, the table already loaded, and the
  listing \<^verbatim>\<open>os.listdir\<close> returns for the source directory (\<open>None\<close>: it raises). Reading
  the configuration and the table is taken to succeed; the content of the message plays
  no part in what follows.
\<close>

record config =
  pdf_directory :: path
  grouped_directory :: path
  processed_directory :: path
  table :: dataframe
  listing :: "string list option"

text \<open>Lines 150 to 197 of \<^verbatim>\<open>main\<close>: what it does with the selected file names.\<close>

definition process_batch ::
  "string list \<Rightarrow> path \<Rightarrow> path \<Rightarrow> path \<Rightarrow> dataframe \<Rightarrow> world \<Rightarrow> exn option \<times> world" where
  "process_batch pdf_files pdf_dir grouped_dir processed_dir df w =
     (let (results, w1) = classify pdf_files pdf_dir grouped_dir df w
      in case grouping results of
           None \<Rightarrow> (Some KeyError, w1)
         | Some (email_groups, pan_to_files) \<Rightarrow>
             (case dispatch_all email_groups pan_to_files processed_dir w1 of
                (Some e, w2) \<Rightarrow> (Some e, w2)
              | (None, w2) \<Rightarrow>
                  (None, logw InfoCompleted (logw (InfoFinished (length email_groups)) w2))))"

text \<open>The \<^verbatim>\<open>try\<close> block of \<^verbatim>\<open>main\<close>.\<close>

definition main_try :: "config \<Rightarrow> world \<Rightarrow> exn option \<times> world" where
  "main_try cfg w =
     (let w0 = logw InfoLoaded w;
          pdf_dir = pdf_directory cfg;
          grouped_dir = grouped_directory cfg;
          processed_dir = processed_directory cfg
      in case makedirs grouped_dir w0 of
           Inl e \<Rightarrow> (Some e, w0)
         | Inr w1 \<Rightarrow>
             (case makedirs processed_dir w1 of
                Inl e \<Rightarrow> (Some e, w1)
              | Inr w2 \<Rightarrow>
                  (case listing cfg of
                     None \<Rightarrow> (Some (FileNotFoundError pdf_dir), w2)
                   | Some entries \<Rightarrow>
                       (let pdf_files = select_pdf_files entries
                        in process_batch pdf_files pdf_dir grouped_dir processed_dir
                             (table cfg) w2))))"

text \<open>The \<^verbatim>\<open>except Exception\<close> of \<^verbatim>\<open>main\<close>: log, and end normally.\<close>

definition main :: "config \<Rightarrow> world \<Rightarrow> world" where
  "main cfg w =
     (case main_try cfg w of
        (Some e, w1) \<Rightarrow> logw (ErrorScript e) w1
      | (None, w1) \<Rightarrow> w1)"

section \<open>Notions used in the statements\<close>

text \<open>
  At position \<open>i\<close> of the text stands the label, then white space, then \<open>code\<close>, which
  has the format of an identifier: what the pattern of the Extractor describes.
\<close>

definition labelled_code_at :: "string \<Rightarrow> nat \<Rightarrow> string \<Rightarrow> bool" where
  "labelled_code_at text i code =
     (\<exists>ws rest. drop i text = label @ ws @ code @ rest \<and> ws \<noteq> [] \<and> list_all re_space ws \<and>
        pan_format code)"


text \<open>The entry of a key, empty when the key is not there.\<close>

definition entry :: "'k \<Rightarrow> ('k \<times> 'a list) list \<Rightarrow> 'a list" where
  "entry k d = (case dict_get k d of None \<Rightarrow> [] | Some xs \<Rightarrow> xs)"

text \<open>The dictionary after \<^verbatim>\<open>if k not in d: d[k] = []\<close> and \<^verbatim>\<open>d[k].append(x)\<close>.\<close>

definition add_to :: "'k \<Rightarrow> 'a \<Rightarrow> ('k \<times> 'a list) list \<Rightarrow> ('k \<times> 'a list) list" where
  "add_to k x d = dict_set k (entry k d @ [x]) d"

text \<open>The paths of the results with a given email, and with a given identifier, in order.\<close>

fun paths_by_email :: "string \<Rightarrow> triple option list \<Rightarrow> path list" where
  "paths_by_email e [] = []"
| "paths_by_email e (None # rs) = paths_by_email e rs"
| "paths_by_email e (Some (pan, email, p) # rs) =
     (if email = e then p # paths_by_email e rs else paths_by_email e rs)"

fun paths_by_pan :: "string \<Rightarrow> triple option list \<Rightarrow> path list" where
  "paths_by_pan k [] = []"
| "paths_by_pan k (None # rs) = paths_by_pan k rs"
| "paths_by_pan k (Some (pan, email, p) # rs) =
     (if pan = k then p # paths_by_pan k rs else paths_by_pan k rs)"

text \<open>A dictionary entry after more elements were appended under its key.\<close>

definition extend :: "'a list option \<Rightarrow> 'a list \<Rightarrow> 'a list option" where
  "extend old new = (if new = [] then old else Some ((case old of None \<Rightarrow> [] | Some xs \<Rightarrow> xs) @ new))"

text \<open>The part of a joined path that comes from the directory.\<close>

definition dir_prefix :: "path \<Rightarrow> path" where
  "dir_prefix a = (if a = [] \<or> last a = CHR ''/'' then a else a @ ''/'')"

text \<open>The steps of the document classifier for one document: what it is to succeed.\<close>

definition classified :: "string \<Rightarrow> path \<Rightarrow> path \<Rightarrow> dataframe \<Rightarrow> world \<Rightarrow> triple \<Rightarrow> bool" where
  "classified pdf_file pdf_dir output_dir df w t =
     (case t of (pan, email, output_path) \<Rightarrow>
        fst (extract_pan_from_pdf (path_join pdf_dir pdf_file) w) = Some pan \<and>
        get_email_for_pan pan df = Some email \<and> email \<noteq> [] \<and>
        (\<exists>w1. makedirs (path_join output_dir pan) w = Inr w1) \<and>
        output_path = path_join (path_join output_dir pan) pdf_file \<and>
        (\<exists>w2. copy (path_join pdf_dir pdf_file) output_path w = Inr w2))"

text \<open>The three ways the classifier fails on a document, in the order of its steps.\<close>

definition extraction_failed :: "string \<Rightarrow> path \<Rightarrow> world \<Rightarrow> bool" where
  "extraction_failed pdf_file pdf_dir w =
     (fst (extract_pan_from_pdf (path_join pdf_dir pdf_file) w) = None)"

definition resolution_failed :: "string \<Rightarrow> path \<Rightarrow> dataframe \<Rightarrow> world \<Rightarrow> bool" where
  "resolution_failed pdf_file pdf_dir df w =
     (case fst (extract_pan_from_pdf (path_join pdf_dir pdf_file) w) of
        None \<Rightarrow> False
      | Some pan \<Rightarrow>
          (case get_email_for_pan pan df of None \<Rightarrow> True | Some email \<Rightarrow> email = []))"

definition copy_failed :: "string \<Rightarrow> path \<Rightarrow> path \<Rightarrow> dataframe \<Rightarrow> world \<Rightarrow> bool" where
  "copy_failed pdf_file pdf_dir output_dir df w =
     (case fst (extract_pan_from_pdf (path_join pdf_dir pdf_file) w) of
        None \<Rightarrow> False
      | Some pan \<Rightarrow>
          (case get_email_for_pan pan df of
             None \<Rightarrow> False
           | Some email \<Rightarrow>
               email \<noteq> [] \<and>
               (case makedirs (path_join output_dir pan) w of
                  Inl e \<Rightarrow> True
                | Inr w1 \<Rightarrow>
                    (case copy (path_join pdf_dir pdf_file)
                            (path_join (path_join output_dir pan) pdf_file) w1 of
                       Inl e \<Rightarrow> True
                     | Inr w2 \<Rightarrow> False))))"

text \<open>
  A sample run: six entries of the source directory \<^verbatim>\<open>in\<close>. Two receipts resolve to the
  same address under different identifiers; one has no identifier in its text; one has an
  identifier the table does not know; one is not a PDF; one cannot be copied, because the
  file system refuses its staging directory.
\<close>

definition sample_files :: "string list" where
  "sample_files = [''a.pdf'', ''b.pdf'', ''c.pdf'', ''d.pdf'', ''e.pdf'', ''f.pdf'']"

definition sample_table :: dataframe where
  "sample_table =
     [\<lparr>PAN = ''ABCDE1234F'', eMail_ID = ''a@x.com''\<rparr>,
      \<lparr>PAN = ''LMNOP0000Q'', eMail_ID = ''l@x.com''\<rparr>,
      \<lparr>PAN = ''FGHIJ5678K'', eMail_ID = ''a@x.com''\<rparr>]"

definition sample_world :: world where
  "sample_world =
     \<lparr>files = [''in/a.pdf'' \<mapsto> PdfPages [''Unique Identification Number ABCDE1234F''],
               ''in/b.pdf'' \<mapsto> PdfPages [''no identifier here''],
               ''in/c.pdf'' \<mapsto> PdfPages [''Unique Identification Number QWERT9876Z''],
               ''in/d.pdf'' \<mapsto> NotPdf,
               ''in/e.pdf'' \<mapsto> PdfPages [''Unique Identification Number LMNOP0000Q''],
               ''in/f.pdf'' \<mapsto> PdfPages [''Unique Identification Number FGHIJ5678K'']],
      faulty = (\<lambda>p. p = ''out/LMNOP0000Q''), smtp = (\<lambda>n. (True, 0)), attempts = [],
      admitted = [], sleeps = [], clock = 0, log = []\<rparr>"

text \<open>A name that ends in a dot and the letters p, d, f, each in either case.\<close>

definition pdf_name :: "string \<Rightarrow> bool" where
  "pdf_name f =
     (\<exists>stem p d e. f = stem @ [CHR ''.'', p, d, e] \<and> (p = CHR ''p'' \<or> p = CHR ''P'') \<and>
        (d = CHR ''d'' \<or> d = CHR ''D'') \<and> (e = CHR ''f'' \<or> e = CHR ''F''))"

text \<open>Whether the delivery attempt number \<open>k\<close> of the run goes through for these attachments.\<close>

definition attempt_ok :: "path list \<Rightarrow> world \<Rightarrow> nat \<Rightarrow> bool" where
  "attempt_ok attachments w k =
     (list_all (\<lambda>file_path. files w file_path \<noteq> None) attachments \<and> fst (smtp w k))"

text \<open>The delay of the retry loop after a failure of attempt number \<open>k\<close>.\<close>

definition backoff :: "nat \<Rightarrow> nat" where
  "backoff k = BASE_DELAY * 2 ^ k"

text \<open>The world after one failed attempt and its sleep, and after a run of them.\<close>

definition after_failure :: "string \<Rightarrow> nat \<Rightarrow> world \<Rightarrow> world" where
  "after_failure email k w =
     sleep (backoff k) (logw (WarnAttemptFailed email (k + 1) (backoff k))
       (w\<lparr>attempts := attempts w @ [clock w],
          clock := clock w + snd (smtp w (length (attempts w)))\<rparr>))"

fun after_failures :: "string \<Rightarrow> nat list \<Rightarrow> world \<Rightarrow> world" where
  "after_failures email [] w = w"
| "after_failures email (k # ks) w = after_failures email ks (after_failure email k w)"

text \<open>
  A server that refuses the first two delivery attempts of the run and takes three seconds
  for each attempt; one staged file; the clock at 100.
\<close>

definition retry_world :: world where
  "retry_world =
     \<lparr>files = [''s/a'' \<mapsto> NotPdf], faulty = (\<lambda>p. False), smtp = (\<lambda>k. (2 \<le> k, 3)),
      attempts = [], admitted = [], sleeps = [], clock = 100, log = []\<rparr>"

text \<open>How many of the times \<open>ts\<close> lie in the window of \<open>period\<close> seconds that starts at \<open>t\<close>.\<close>

definition in_window :: "nat \<Rightarrow> nat \<Rightarrow> nat list \<Rightarrow> nat" where
  "in_window t period ts = length (filter (\<lambda>a. t \<le> a \<and> a < t + period) ts)"

text \<open>
  How many of the admissions \<open>hist\<close> lie less than \<open>period\<close> seconds back at the time
  \<open>t\<close>: what the limiter counts against the limit at that moment.
\<close>

definition recent :: "nat \<Rightarrow> nat list \<Rightarrow> nat \<Rightarrow> nat" where
  "recent period hist t = length (filter (\<lambda>a. t < a + period) hist)"

text \<open>
  The state of the limiter between calls: the admissions are in order and not after the
  clock, and an admission lies at least \<open>period\<close> seconds after the one \<open>calls\<close> places
  before it.
\<close>

definition limiter_inv :: "nat \<Rightarrow> nat \<Rightarrow> nat list \<Rightarrow> nat \<Rightarrow> bool" where
  "limiter_inv calls period hist now =
     (sorted hist \<and> (\<forall>a \<in> set hist. a \<le> now) \<and>
      (\<forall>i. i + calls < length hist \<longrightarrow> hist ! i + period \<le> hist ! (i + calls)))"




text \<open>
  A burst: seven receipts for seven recipients, and a server that accepts every third
  delivery attempt of the run, each attempt taking no time.
\<close>

definition burst_table :: dataframe where
  "burst_table =
     [\<lparr>PAN = ''AAAAA0001A'', eMail_ID = ''1@x.com''\<rparr>,
      \<lparr>PAN = ''AAAAA0002A'', eMail_ID = ''2@x.com''\<rparr>,
      \<lparr>PAN = ''AAAAA0003A'', eMail_ID = ''3@x.com''\<rparr>,
      \<lparr>PAN = ''AAAAA0004A'', eMail_ID = ''4@x.com''\<rparr>,
      \<lparr>PAN = ''AAAAA0005A'', eMail_ID = ''5@x.com''\<rparr>,
      \<lparr>PAN = ''AAAAA0006A'', eMail_ID = ''6@x.com''\<rparr>,
      \<lparr>PAN = ''AAAAA0007A'', eMail_ID = ''7@x.com''\<rparr>]"

definition burst_config :: config where
  "burst_config =
     \<lparr>pdf_directory = ''in'', grouped_directory = ''out'', processed_directory = ''done'',
      table = burst_table,
      listing = Some [''1.pdf'', ''2.pdf'', ''3.pdf'', ''4.pdf'', ''5.pdf'', ''6.pdf'', ''7.pdf'']\<rparr>"

definition burst_world :: world where
  "burst_world =
     \<lparr>files = [''in/1.pdf'' \<mapsto> PdfPages [''Unique Identification Number AAAAA0001A''],
               ''in/2.pdf'' \<mapsto> PdfPages [''Unique Identification Number AAAAA0002A''],
               ''in/3.pdf'' \<mapsto> PdfPages [''Unique Identification Number AAAAA0003A''],
               ''in/4.pdf'' \<mapsto> PdfPages [''Unique Identification Number AAAAA0004A''],
               ''in/5.pdf'' \<mapsto> PdfPages [''Unique Identification Number AAAAA0005A''],
               ''in/6.pdf'' \<mapsto> PdfPages [''Unique Identification Number AAAAA0006A''],
               ''in/7.pdf'' \<mapsto> PdfPages [''Unique Identification Number AAAAA0007A'']],
      faulty = (\<lambda>p. False), smtp = (\<lambda>k. (k mod 3 = 2, 0)), attempts = [],
      admitted = [], sleeps = [], clock = 0, log = []\<rparr>"

text \<open>
  The two recipient groups of the sample directory after classification and grouping,
  when all three receipts are staged in \<^verbatim>\<open>out\<close>, and the identifier-to-paths mapping.
\<close>

definition mail_groups :: groups where
  "mail_groups =
     [(''a@x.com'', [''out/ABCDE1234F/a.pdf'', ''out/FGHIJ5678K/f.pdf'']),
      (''l@x.com'', [''out/LMNOP0000Q/e.pdf''])]"

definition mail_owners :: groups where
  "mail_owners =
     [(''ABCDE1234F'', [''out/ABCDE1234F/a.pdf'']),
      (''LMNOP0000Q'', [''out/LMNOP0000Q/e.pdf'']),
      (''FGHIJ5678K'', [''out/FGHIJ5678K/f.pdf''])]"

text \<open>
  The sample directory again, with one more entry that is not a PDF name, a server that
  accepts, and a file system that refuses nothing but the processed place of the first
  receipt. Three receipts are staged: two for the first recipient, one for the second.
\<close>

definition jam_config :: config where
  "jam_config =
     \<lparr>pdf_directory = ''in'', grouped_directory = ''out'', processed_directory = ''done'',
      table = sample_table, listing = Some (sample_files @ [''notes.txt''])\<rparr>"

definition jam_world :: world where
  "jam_world = sample_world\<lparr>faulty := (\<lambda>p. p = ''done/ABCDE1234F/a.pdf'')\<rparr>"



text \<open>
  A crowd: twenty-two recipients with one staged receipt each, and a server that accepts
  every delivery attempt and takes one second for it.
\<close>

definition crowd_tags :: "string list" where
  "crowd_tags =
     [''01'', ''02'', ''03'', ''04'', ''05'', ''06'', ''07'', ''08'', ''09'', ''10'', ''11'',
      ''12'', ''13'', ''14'', ''15'', ''16'', ''17'', ''18'', ''19'', ''20'', ''21'', ''22'']"

definition crowd_groups :: groups where
  "crowd_groups = map (\<lambda>t. (t @ ''@x.com'', [''out/'' @ t])) crowd_tags"

definition crowd_owners :: groups where
  "crowd_owners = map (\<lambda>t. (t, [''out/'' @ t])) crowd_tags"

definition crowd_world :: world where
  "crowd_world =
     \<lparr>files = (\<lambda>p. if p \<in> set (map (\<lambda>t. ''out/'' @ t) crowd_tags) then Some NotPdf else None),
      faulty = (\<lambda>p. False), smtp = (\<lambda>k. (True, 1)), attempts = [],
      admitted = [], sleeps = [], clock = 0, log = []\<rparr>"

section \<open>Theorems\<close>

subsection \<open>Extractor\<close>

lemma re_upper_not_space: "re_upper c \<Longrightarrow> \<not> re_space c"
  by (auto simp: re_upper_def re_space_def Let_def)

lemma pan_format_hd: "pan_format code \<Longrightarrow> \<exists>c cs. code = c # cs \<and> \<not> re_space c"
  by (cases code) (auto simp: pan_format_def re_upper_not_space)

lemma match_here_intro:
  assumes "ws \<noteq> []" "list_all re_space ws" "pan_format code"
  shows "match_here (label @ ws @ code @ rest) = Some code"
proof -
  from assms(3) obtain c cs where c: "code = c # cs" "\<not> re_space c"
    using pan_format_hd by blast
  have len: "length code = 10" using assms(3) by (simp add: pan_format_def)
  have tw: "takeWhile re_space (ws @ code @ rest) = ws"
    using assms(2) c by (simp add: takeWhile_append2 list_all_iff takeWhile_tail)
  have dw: "dropWhile re_space (ws @ code @ rest) = code @ rest"
    using assms(2) c by (simp add: dropWhile_append2 list_all_iff)
  show ?thesis
    using assms(1,3) len tw dw by (simp add: match_here_def Let_def)
qed

lemma match_here_elim:
  assumes "match_here s = Some code"
  shows "\<exists>ws rest. s = label @ ws @ code @ rest \<and> ws \<noteq> [] \<and> list_all re_space ws \<and> pan_format code"
proof -
  let ?after = "drop (length label) s"
  let ?ws = "takeWhile re_space ?after"
  let ?rest = "drop 10 (dropWhile re_space ?after)"
  from assms have l: "take (length label) s = label"
    and ws: "?ws \<noteq> []" and pf: "pan_format code"
    and code: "code = take 10 (dropWhile re_space ?after)"
    by (auto simp: match_here_def Let_def split: if_splits)
  have "s = take (length label) s @ ?after" by simp
  also have "?after = ?ws @ dropWhile re_space ?after" by simp
  also have "dropWhile re_space ?after = code @ ?rest" using code by simp
  finally have "s = label @ ?ws @ code @ ?rest" using l by simp
  moreover have "list_all re_space ?ws"
    by (simp add: list_all_iff) (meson set_takeWhileD)
  ultimately show ?thesis using ws pf by blast
qed

lemma match_here_iff:
  "match_here s = Some code \<longleftrightarrow>
   (\<exists>ws rest. s = label @ ws @ code @ rest \<and> ws \<noteq> [] \<and> list_all re_space ws \<and> pan_format code)"
  using match_here_intro match_here_elim by blast

lemma re_search_None: "re_search s = None \<longleftrightarrow> (\<forall>i. match_here (drop i s) = None)"
proof (induction s)
  case Nil
  then show ?case by simp
next
  case (Cons c cs)
  show ?case
  proof
    assume a: "re_search (c # cs) = None"
    then have h: "match_here (c # cs) = None" and t: "re_search cs = None"
      by (auto split: option.splits)
    show "\<forall>i. match_here (drop i (c # cs)) = None"
    proof
      fix i show "match_here (drop i (c # cs)) = None"
        using h t Cons.IH by (cases i) auto
    qed
  next
    assume a: "\<forall>i. match_here (drop i (c # cs)) = None"
    then have "match_here (drop 0 (c # cs)) = None" by blast
    moreover have "\<forall>i. match_here (drop i cs) = None"
    proof
      fix i from a have "match_here (drop (Suc i) (c # cs)) = None" by blast
      then show "match_here (drop i cs) = None" by simp
    qed
    ultimately show "re_search (c # cs) = None" using Cons.IH by simp
  qed
qed

lemma re_search_Some:
  "re_search s = Some code \<longleftrightarrow>
   (\<exists>i. match_here (drop i s) = Some code \<and> (\<forall>j<i. match_here (drop j s) = None))"
proof (induction s)
  case Nil
  then show ?case by auto
next
  case (Cons c cs)
  show ?case
  proof (cases "match_here (c # cs)")
    case (Some m)
    have "(\<exists>i. match_here (drop i (c # cs)) = Some code \<and> (\<forall>j<i. match_here (drop j (c # cs)) = None))
       \<longleftrightarrow> m = code"
    proof
      assume "\<exists>i. match_here (drop i (c # cs)) = Some code \<and> (\<forall>j<i. match_here (drop j (c # cs)) = None)"
      then obtain i where i: "match_here (drop i (c # cs)) = Some code"
        "\<forall>j<i. match_here (drop j (c # cs)) = None" by blast
      have "i = 0"
      proof (rule ccontr)
        assume "i \<noteq> 0" then have "0 < i" by simp
        with i(2) have "match_here (drop 0 (c # cs)) = None" by blast
        with Some show False by simp
      qed
      with i(1) Some show "m = code" by simp
    next
      assume "m = code"
      with Some have "match_here (drop 0 (c # cs)) = Some code \<and> (\<forall>j<0. match_here (drop j (c # cs)) = None)"
        by simp
      then show "\<exists>i. match_here (drop i (c # cs)) = Some code \<and> (\<forall>j<i. match_here (drop j (c # cs)) = None)"
        by blast
    qed
    with Some show ?thesis by simp
  next
    case None
    have "(\<exists>i. match_here (drop i (c # cs)) = Some code \<and> (\<forall>j<i. match_here (drop j (c # cs)) = None))
       \<longleftrightarrow> (\<exists>i. match_here (drop i cs) = Some code \<and> (\<forall>j<i. match_here (drop j cs) = None))"
    proof
      assume "\<exists>i. match_here (drop i (c # cs)) = Some code \<and> (\<forall>j<i. match_here (drop j (c # cs)) = None)"
      then obtain i where i: "match_here (drop i (c # cs)) = Some code"
        "\<forall>j<i. match_here (drop j (c # cs)) = None" by blast
      from i(1) None obtain k where k: "i = Suc k" by (cases i) auto
      have "\<forall>j<k. match_here (drop j cs) = None"
      proof (intro allI impI)
        fix j assume "j < k"
        then have "Suc j < i" using k by simp
        with i(2) have "match_here (drop (Suc j) (c # cs)) = None" by blast
        then show "match_here (drop j cs) = None" by simp
      qed
      with i(1) k show "\<exists>i. match_here (drop i cs) = Some code \<and> (\<forall>j<i. match_here (drop j cs) = None)"
        by auto
    next
      assume "\<exists>i. match_here (drop i cs) = Some code \<and> (\<forall>j<i. match_here (drop j cs) = None)"
      then obtain i where i: "match_here (drop i cs) = Some code"
        "\<forall>j<i. match_here (drop j cs) = None" by blast
      have "\<forall>j<Suc i. match_here (drop j (c # cs)) = None"
      proof (intro allI impI)
        fix j assume "j < Suc i"
        then show "match_here (drop j (c # cs)) = None"
          using None i(2) by (cases j) auto
      qed
      with i(1) show "\<exists>i. match_here (drop i (c # cs)) = Some code \<and> (\<forall>j<i. match_here (drop j (c # cs)) = None)"
        by (intro exI[of _ "Suc i"]) simp
    qed
    with None Cons.IH show ?thesis by simp
  qed
qed

lemma labelled_code_at_match: "labelled_code_at text i code \<longleftrightarrow> match_here (drop i text) = Some code"
  by (simp add: labelled_code_at_def match_here_iff)

lemma labelled_code_at_unique:
  "labelled_code_at text i c1 \<Longrightarrow> labelled_code_at text i c2 \<Longrightarrow> c1 = c2"
  by (simp add: labelled_code_at_match)

lemma re_search_leftmost:
  "(\<exists>i c. labelled_code_at text i c) \<Longrightarrow>
   \<exists>i code. labelled_code_at text i code \<and> (\<forall>j<i. \<forall>c. \<not> labelled_code_at text j c) \<and>
     re_search text = Some code"
proof -
  assume "\<exists>i c. labelled_code_at text i c"
  then have "re_search text \<noteq> None"
    by (auto simp: re_search_None labelled_code_at_match)
  then obtain code where c: "re_search text = Some code" by auto
  then obtain i where i: "match_here (drop i text) = Some code"
    "\<forall>j<i. match_here (drop j text) = None"
    by (auto simp: re_search_Some)
  then have "labelled_code_at text i code \<and> (\<forall>j<i. \<forall>c. \<not> labelled_code_at text j c)"
    by (simp add: labelled_code_at_match)
  with c show ?thesis by blast
qed

text \<open>
  C5: when the text of the document contains the label phrase, white space and an
  identifier of the valid format (five capital letters, four digits, one capital letter),
  the Extractor returns exactly that ten-character code, the one of the leftmost such
  place (the first match's group); when the text has no such place (no label, or no code
  of that format after it) the Extractor returns absence.
\<close>

theorem extractor_first_labelled_code:
  assumes "read_pdf_text pdf_path w = Inr text"
  shows "((\<exists>i c. labelled_code_at text i c) \<longrightarrow>
            (\<exists>i code. labelled_code_at text i code \<and> (\<forall>j<i. \<forall>c. \<not> labelled_code_at text j c) \<and>
               fst (extract_pan_from_pdf pdf_path w) = Some code)) \<and>
         (\<not> (\<exists>i c. labelled_code_at text i c) \<longrightarrow> fst (extract_pan_from_pdf pdf_path w) = None)"
proof (intro conjI impI)
  assume "\<exists>i c. labelled_code_at text i c"
  from re_search_leftmost [OF this] obtain i code where
    "labelled_code_at text i code" "\<forall>j<i. \<forall>c. \<not> labelled_code_at text j c"
    "re_search text = Some code" by blast
  moreover from this(3) assms have "fst (extract_pan_from_pdf pdf_path w) = Some code"
    by (simp add: extract_pan_from_pdf_def)
  ultimately show "\<exists>i code. labelled_code_at text i code \<and> (\<forall>j<i. \<forall>c. \<not> labelled_code_at text j c) \<and>
               fst (extract_pan_from_pdf pdf_path w) = Some code" by blast
next
  assume "\<not> (\<exists>i c. labelled_code_at text i c)"
  then have "re_search text = None"
    by (simp add: re_search_None labelled_code_at_match)
  with assms show "fst (extract_pan_from_pdf pdf_path w) = None"
    by (simp add: extract_pan_from_pdf_def)
qed

theorem extractor_first_labelled_code_witness:
  "read_pdf_text ''in/A.pdf''
     \<lparr>files = [''in/A.pdf'' \<mapsto> PdfPages [''Unique Identi'', ''fication Number  ABCDE1234F.'']],
      faulty = (\<lambda>p. False), smtp = (\<lambda>n. (True, 0)), attempts = [], admitted = [],
      sleeps = [], clock = 0, log = []\<rparr>
     = Inr ''Unique Identification Number  ABCDE1234F.'' \<and>
   labelled_code_at ''Unique Identification Number  ABCDE1234F.'' 0 ''ABCDE1234F'' \<and>
   fst (extract_pan_from_pdf ''in/A.pdf''
     \<lparr>files = [''in/A.pdf'' \<mapsto> PdfPages [''Unique Identi'', ''fication Number  ABCDE1234F.'']],
      faulty = (\<lambda>p. False), smtp = (\<lambda>n. (True, 0)), attempts = [], admitted = [],
      sleeps = [], clock = 0, log = []\<rparr>) = Some ''ABCDE1234F'' \<and>
   read_pdf_text ''in/B.pdf''
     \<lparr>files = [''in/B.pdf'' \<mapsto> PdfPages [''Unique Identification Number ABCDE12345'']],
      faulty = (\<lambda>p. False), smtp = (\<lambda>n. (True, 0)), attempts = [], admitted = [],
      sleeps = [], clock = 0, log = []\<rparr>
     = Inr ''Unique Identification Number ABCDE12345'' \<and>
   \<not> (\<exists>i c. labelled_code_at ''Unique Identification Number ABCDE12345'' i c) \<and>
   fst (extract_pan_from_pdf ''in/B.pdf''
     \<lparr>files = [''in/B.pdf'' \<mapsto> PdfPages [''Unique Identification Number ABCDE12345'']],
      faulty = (\<lambda>p. False), smtp = (\<lambda>n. (True, 0)), attempts = [], admitted = [],
      sleeps = [], clock = 0, log = []\<rparr>) = None"
proof -
  let ?wa = "\<lparr>files = [''in/A.pdf'' \<mapsto> PdfPages [''Unique Identi'', ''fication Number  ABCDE1234F.'']],
      faulty = (\<lambda>p. False), smtp = (\<lambda>n. (True, 0)), attempts = [], admitted = [],
      sleeps = [], clock = 0, log = []\<rparr>"
  let ?wb = "\<lparr>files = [''in/B.pdf'' \<mapsto> PdfPages [''Unique Identification Number ABCDE12345'']],
      faulty = (\<lambda>p. False), smtp = (\<lambda>n. (True, 0)), attempts = [], admitted = [],
      sleeps = [], clock = 0, log = []\<rparr>"
  let ?ta = "''Unique Identification Number  ABCDE1234F.''"
  let ?tb = "''Unique Identification Number ABCDE12345''"
  have ra: "read_pdf_text ''in/A.pdf'' ?wa = Inr ?ta"
    by (simp add: read_pdf_text_def)
  have rb: "read_pdf_text ''in/B.pdf'' ?wb = Inr ?tb"
    by (simp add: read_pdf_text_def)
  have at0: "labelled_code_at ?ta 0 ''ABCDE1234F''"
    unfolding labelled_code_at_def
    by (intro exI [of _ "''  ''"] exI [of _ "''.''"])
      (simp add: label_def pan_format_def re_space_def re_upper_def re_digit_def)
  have "re_search ?tb = None"
    by (simp add: match_here_def label_def pan_format_def re_space_def re_upper_def
        re_digit_def)
  with re_search_None [of ?tb] have "\<forall>i. match_here (drop i ?tb) = None"
    by blast
  then have none_b: "\<not> (\<exists>i c. labelled_code_at ?tb i c)"
    by (simp only: labelled_code_at_match) simp
  from at0 extractor_first_labelled_code [OF ra]
  obtain i code where f: "labelled_code_at ?ta i code"
    "\<forall>j<i. \<forall>c. \<not> labelled_code_at ?ta j c"
    "fst (extract_pan_from_pdf ''in/A.pdf'' ?wa) = Some code"
    by blast
  have "\<not> 0 < i"
    using f(2) at0 by blast
  then have "i = 0" by simp
  with f(1) at0 have "code = ''ABCDE1234F''"
    using labelled_code_at_unique by blast
  with f(3) have ea: "fst (extract_pan_from_pdf ''in/A.pdf'' ?wa) = Some ''ABCDE1234F''"
    by simp
  from none_b extractor_first_labelled_code [OF rb]
  have eb: "fst (extract_pan_from_pdf ''in/B.pdf'' ?wb) = None" by blast
  from ra at0 ea rb none_b eb show ?thesis by blast
qed

subsection \<open>Resolver\<close>

lemma get_email_for_pan_absent:
  "pan \<notin> PAN ` set df \<Longrightarrow> get_email_for_pan pan df = None"
  by (induction df) (auto simp: get_email_for_pan_def)

lemma get_email_for_pan_first:
  "PAN r = pan \<Longrightarrow> pan \<notin> PAN ` set before \<Longrightarrow>
   get_email_for_pan pan (before @ r # rest) = Some (eMail_ID r)"
  by (induction before) (auto simp: get_email_for_pan_def)

text \<open>
  C6: for an identifier that some row of the table carries, also when several rows carry
  it, the Resolver returns the email of the first row whose \<^verbatim>\<open>PAN\<close> column equals it; for an
  identifier that no row carries it returns absence.
\<close>

theorem resolver_first_matching_row:
  "(pan \<in> PAN ` set df \<longrightarrow>
      (\<exists>before r rest. df = before @ r # rest \<and> PAN r = pan \<and> pan \<notin> PAN ` set before \<and>
         get_email_for_pan pan df = Some (eMail_ID r))) \<and>
   (pan \<notin> PAN ` set df \<longrightarrow> get_email_for_pan pan df = None)"
proof (intro conjI impI)
  assume "pan \<in> PAN ` set df"
  then obtain r0 where "r0 \<in> set df" "PAN r0 = pan" by auto
  then have "\<exists>x \<in> set df. PAN x = pan" by blast
  then obtain before r rest where
    d: "df = before @ r # rest" "PAN r = pan" "\<forall>y \<in> set before. PAN y \<noteq> pan"
    by (auto simp: split_list_first_prop_iff)
  from d(3) have "pan \<notin> PAN ` set before" by auto
  with d(1,2) get_email_for_pan_first [of r pan before rest]
  show "\<exists>before r rest. df = before @ r # rest \<and> PAN r = pan \<and> pan \<notin> PAN ` set before \<and>
         get_email_for_pan pan df = Some (eMail_ID r)"
    by blast
next
  assume "pan \<notin> PAN ` set df"
  then show "get_email_for_pan pan df = None" by (rule get_email_for_pan_absent)
qed

theorem resolver_first_matching_row_witness:
  "''B'' \<in> PAN ` set [\<lparr>PAN = ''A'', eMail_ID = ''x''\<rparr>, \<lparr>PAN = ''B'', eMail_ID = ''y''\<rparr>,
       \<lparr>PAN = ''B'', eMail_ID = ''z''\<rparr>] \<and>
   get_email_for_pan ''B'' [\<lparr>PAN = ''A'', eMail_ID = ''x''\<rparr>, \<lparr>PAN = ''B'', eMail_ID = ''y''\<rparr>,
       \<lparr>PAN = ''B'', eMail_ID = ''z''\<rparr>] = Some ''y'' \<and>
   ''C'' \<notin> PAN ` set [\<lparr>PAN = ''A'', eMail_ID = ''x''\<rparr>, \<lparr>PAN = ''B'', eMail_ID = ''y''\<rparr>,
       \<lparr>PAN = ''B'', eMail_ID = ''z''\<rparr>] \<and>
   get_email_for_pan ''C'' [\<lparr>PAN = ''A'', eMail_ID = ''x''\<rparr>, \<lparr>PAN = ''B'', eMail_ID = ''y''\<rparr>,
       \<lparr>PAN = ''B'', eMail_ID = ''z''\<rparr>] = None"
proof -
  let ?df = "[\<lparr>PAN = ''A'', eMail_ID = ''x''\<rparr>, \<lparr>PAN = ''B'', eMail_ID = ''y''\<rparr>,
       \<lparr>PAN = ''B'', eMail_ID = ''z''\<rparr>]"
  have present: "''B'' \<in> PAN ` set ?df" by simp
  have absent: "''C'' \<notin> PAN ` set ?df" by simp
  from present resolver_first_matching_row [of "''B''" ?df]
  obtain before r rest where
    d: "?df = before @ r # rest" "PAN r = ''B''" "''B'' \<notin> PAN ` set before"
       "get_email_for_pan ''B'' ?df = Some (eMail_ID r)"
    by blast
  have "before = [\<lparr>PAN = ''A'', eMail_ID = ''x''\<rparr>] \<and> r = \<lparr>PAN = ''B'', eMail_ID = ''y''\<rparr>"
    using d(1,2,3) by (cases before; cases "tl before") auto
  with d(4) have first: "get_email_for_pan ''B'' ?df = Some ''y''" by simp
  from absent resolver_first_matching_row [of "''C''" ?df]
  have none: "get_email_for_pan ''C'' ?df = None" by blast
  from present first absent none show ?thesis by blast
qed

subsection \<open>Grouping\<close>

lemma dict_get_dict_set: "dict_get k (dict_set k' v d) = (if k = k' then Some v else dict_get k d)"
  by (induction d) auto

lemma dict_keys_dict_set: "set (dict_keys (dict_set k v d)) = insert k (set (dict_keys d))"
proof (induction d)
  case Nil
  then show ?case by (simp add: dict_keys_def)
next
  case (Cons a d)
  then show ?case by (cases a) (auto simp: dict_keys_def)
qed

lemma dict_get_None_iff: "dict_get k d = None \<longleftrightarrow> k \<notin> set (dict_keys d)"
proof (induction d)
  case Nil
  then show ?case by (simp add: dict_keys_def)
next
  case (Cons a d)
  then show ?case by (cases a) (auto simp: dict_keys_def)
qed

lemma distinct_dict_set: "distinct (dict_keys d) \<Longrightarrow> distinct (dict_keys (dict_set k v d))"
proof (induction d)
  case Nil
  then show ?case by (simp add: dict_keys_def)
next
  case (Cons a d)
  obtain k' v' where a: "a = (k', v')" by (cases a)
  from Cons.prems have d: "distinct (dict_keys d)" "k' \<notin> set (dict_keys d)"
    by (auto simp: dict_keys_def a)
  show ?case
  proof (cases "k' = k")
    case True
    with Cons.prems show ?thesis by (simp add: a dict_keys_def)
  next
    case False
    have "set (dict_keys (dict_set k v d)) = insert k (set (dict_keys d))"
      by (rule dict_keys_dict_set)
    with False d Cons.IH show ?thesis
      by (auto simp: a dict_keys_def)
  qed
qed

lemma dict_get_Some_set: "distinct (dict_keys d) \<Longrightarrow> dict_get k d = Some v \<longleftrightarrow> (k, v) \<in> set d"
proof (induction d)
  case Nil
  then show ?case by simp
next
  case (Cons a d)
  obtain k' v' where a: "a = (k', v')" by (cases a)
  from Cons.prems have d: "distinct (dict_keys d)" "k' \<notin> fst ` set d"
    by (auto simp: dict_keys_def a)
  show ?case
  proof (cases "k' = k")
    case True
    with d(2) have "(k, v) \<notin> set d" by force
    with True show ?thesis by (auto simp: a)
  next
    case False
    with Cons.IH [OF d(1)] show ?thesis by (auto simp: a)
  qed
qed

lemma dict_append_ensured:
  "dict_append k x (if k \<notin> set (dict_keys d) then dict_set k [] d else d) = Some (add_to k x d)"
proof (cases "k \<in> set (dict_keys d)")
  case True
  then obtain xs where "dict_get k d = Some xs"
    using dict_get_None_iff [of k d] by auto
  with True show ?thesis by (simp add: dict_append_def add_to_def entry_def)
next
  case False
  then have n: "dict_get k d = None" by (simp add: dict_get_None_iff)
  have "dict_set k ([] @ [x]) (dict_set k [] d) = dict_set k [x] d"
    by (induction d) auto
  with False n show ?thesis
    by (simp add: dict_append_def add_to_def entry_def dict_get_dict_set)
qed

lemma dict_get_add_to:
  "dict_get k' (add_to k x d) = (if k' = k then Some (entry k d @ [x]) else dict_get k' d)"
  by (simp add: add_to_def dict_get_dict_set)

lemma group_step_Some:
  "group_step (Some (pan, email, pdf_path)) (eg, pf) =
     Some (add_to email pdf_path eg, add_to pan pdf_path pf)"
  using dict_append_ensured [of email pdf_path eg] dict_append_ensured [of pan pdf_path pf]
  by (simp add: group_step_def Let_def)

lemma group_step_None: "group_step None g = Some g"
  by (simp add: group_step_def)

lemma group_loop_total:
  "\<exists>eg' pf'. group_loop rs (eg, pf) = Some (eg', pf') \<and>
     (\<forall>e. dict_get e eg' = extend (dict_get e eg) (paths_by_email e rs)) \<and>
     (\<forall>k. dict_get k pf' = extend (dict_get k pf) (paths_by_pan k rs)) \<and>
     (distinct (dict_keys eg) \<longrightarrow> distinct (dict_keys eg')) \<and>
     (distinct (dict_keys pf) \<longrightarrow> distinct (dict_keys pf'))"
proof (induction rs arbitrary: eg pf)
  case Nil
  then show ?case by (simp add: extend_def)
next
  case (Cons r rs)
  show ?case
  proof (cases r)
    case None
    with Cons.IH [of eg pf] show ?thesis by (simp add: group_step_None)
  next
    case (Some t)
    obtain pan email p where t: "t = (pan, email, p)" by (cases t)
    from Cons.IH [of "add_to email p eg" "add_to pan p pf"]
    obtain eg' pf' where
      l: "group_loop rs (add_to email p eg, add_to pan p pf) = Some (eg', pf')"
      and e: "\<forall>e. dict_get e eg' = extend (dict_get e (add_to email p eg)) (paths_by_email e rs)"
      and k: "\<forall>k. dict_get k pf' = extend (dict_get k (add_to pan p pf)) (paths_by_pan k rs)"
      and de: "distinct (dict_keys (add_to email p eg)) \<longrightarrow> distinct (dict_keys eg')"
      and dk: "distinct (dict_keys (add_to pan p pf)) \<longrightarrow> distinct (dict_keys pf')"
      by blast
    have "group_loop (r # rs) (eg, pf) = Some (eg', pf')"
      using l by (simp add: Some t group_step_Some)
    moreover have "\<forall>e. dict_get e eg' = extend (dict_get e eg) (paths_by_email e (r # rs))"
      using e by (auto simp: Some t dict_get_add_to extend_def entry_def split: option.splits)
    moreover have "\<forall>k. dict_get k pf' = extend (dict_get k pf) (paths_by_pan k (r # rs))"
      using k by (auto simp: Some t dict_get_add_to extend_def entry_def split: option.splits)
    moreover have "distinct (dict_keys eg) \<longrightarrow> distinct (dict_keys eg')"
      using de by (simp add: add_to_def distinct_dict_set)
    moreover have "distinct (dict_keys pf) \<longrightarrow> distinct (dict_keys pf')"
      using dk by (simp add: add_to_def distinct_dict_set)
    ultimately show ?thesis by blast
  qed
qed

lemma grouping_char:
  "\<exists>eg pf. grouping rs = Some (eg, pf) \<and>
     (\<forall>e. dict_get e eg = (if paths_by_email e rs = [] then None else Some (paths_by_email e rs))) \<and>
     (\<forall>k. dict_get k pf = (if paths_by_pan k rs = [] then None else Some (paths_by_pan k rs))) \<and>
     distinct (dict_keys eg) \<and> distinct (dict_keys pf)"
proof -
  from group_loop_total [of rs "[]" "[]"] obtain eg pf where
    l: "group_loop rs ([], []) = Some (eg, pf)"
    and e: "\<forall>e. dict_get e eg = extend (dict_get e []) (paths_by_email e rs)"
    and k: "\<forall>k. dict_get k pf = extend (dict_get k []) (paths_by_pan k rs)"
    and d: "distinct (dict_keys eg)" "distinct (dict_keys pf)"
    by (auto simp: dict_keys_def)
  from l have "grouping rs = Some (eg, pf)" by (simp add: grouping_def)
  moreover from e have "\<forall>e. dict_get e eg =
      (if paths_by_email e rs = [] then None else Some (paths_by_email e rs))"
    by (simp add: extend_def)
  moreover from k have "\<forall>k. dict_get k pf =
      (if paths_by_pan k rs = [] then None else Some (paths_by_pan k rs))"
    by (simp add: extend_def)
  ultimately show ?thesis using d by blast
qed

lemma set_paths_by_email: "set (paths_by_email e rs) = {p. \<exists>pan. Some (pan, e, p) \<in> set rs}"
  by (induction e rs rule: paths_by_email.induct) auto

lemma set_paths_by_pan: "set (paths_by_pan k rs) = {p. \<exists>email. Some (k, email, p) \<in> set rs}"
  by (induction k rs rule: paths_by_pan.induct) auto

lemma dict_keys_iff: "k \<in> set (dict_keys d) \<longleftrightarrow> dict_get k d \<noteq> None"
  by (simp add: dict_get_None_iff)

text \<open>
  C7: for a list of optional classification triples and any permutation of it, grouping
  the permuted list gives the same email-to-paths mapping and the same
  identifier-to-paths mapping, value lists compared as sets: the same keys, and under each
  key the same set of paths.
\<close>

theorem grouping_order_independent:
  assumes "mset ys = mset xs"
  shows "\<exists>eg pf eg' pf'. grouping xs = Some (eg, pf) \<and> grouping ys = Some (eg', pf') \<and>
     set (dict_keys eg') = set (dict_keys eg) \<and> set (dict_keys pf') = set (dict_keys pf) \<and>
     (\<forall>e. map_option set (dict_get e eg') = map_option set (dict_get e eg)) \<and>
     (\<forall>k. map_option set (dict_get k pf') = map_option set (dict_get k pf))"
proof -
  from assms have s: "set ys = set xs" by (rule mset_eq_setD)
  have se: "set (paths_by_email e ys) = set (paths_by_email e xs)" for e
    by (simp add: set_paths_by_email s)
  have sk: "set (paths_by_pan k ys) = set (paths_by_pan k xs)" for k
    by (simp add: set_paths_by_pan s)
  have ne: "paths_by_email e ys = [] \<longleftrightarrow> paths_by_email e xs = []" for e
    using se [of e] by (metis set_empty)
  have nk: "paths_by_pan k ys = [] \<longleftrightarrow> paths_by_pan k xs = []" for k
    using sk [of k] by (metis set_empty)
  from grouping_char [of xs] obtain eg pf where
    x: "grouping xs = Some (eg, pf)"
    and xe: "\<forall>e. dict_get e eg = (if paths_by_email e xs = [] then None else Some (paths_by_email e xs))"
    and xk: "\<forall>k. dict_get k pf = (if paths_by_pan k xs = [] then None else Some (paths_by_pan k xs))"
    by blast
  from grouping_char [of ys] obtain eg' pf' where
    y: "grouping ys = Some (eg', pf')"
    and ye: "\<forall>e. dict_get e eg' = (if paths_by_email e ys = [] then None else Some (paths_by_email e ys))"
    and yk: "\<forall>k. dict_get k pf' = (if paths_by_pan k ys = [] then None else Some (paths_by_pan k ys))"
    by blast
  have me: "\<forall>e. map_option set (dict_get e eg') = map_option set (dict_get e eg)"
    using xe ye se ne by simp
  have mk: "\<forall>k. map_option set (dict_get k pf') = map_option set (dict_get k pf)"
    using xk yk sk nk by simp
  have "set (dict_keys eg') = set (dict_keys eg)"
  proof (rule set_eqI)
    fix e
    from me have "map_option set (dict_get e eg') = map_option set (dict_get e eg)" by blast
    then show "e \<in> set (dict_keys eg') \<longleftrightarrow> e \<in> set (dict_keys eg)"
      by (cases "dict_get e eg'"; cases "dict_get e eg") (simp_all add: dict_keys_iff)
  qed
  moreover have "set (dict_keys pf') = set (dict_keys pf)"
  proof (rule set_eqI)
    fix k
    from mk have "map_option set (dict_get k pf') = map_option set (dict_get k pf)" by blast
    then show "k \<in> set (dict_keys pf') \<longleftrightarrow> k \<in> set (dict_keys pf)"
      by (cases "dict_get k pf'"; cases "dict_get k pf") (simp_all add: dict_keys_iff)
  qed
  ultimately show ?thesis using x y me mk by blast
qed

theorem grouping_order_independent_witness:
  "mset [Some (''P1'', ''e2'', ''c''), Some (''P2'', ''e1'', ''b''), None, Some (''P1'', ''e1'', ''a'')] =
     mset [Some (''P1'', ''e1'', ''a''), None, Some (''P2'', ''e1'', ''b''), Some (''P1'', ''e2'', ''c'')] \<and>
   grouping [Some (''P1'', ''e1'', ''a''), None, Some (''P2'', ''e1'', ''b''), Some (''P1'', ''e2'', ''c'')] =
     Some ([(''e1'', [''a'', ''b'']), (''e2'', [''c''])], [(''P1'', [''a'', ''c'']), (''P2'', [''b''])]) \<and>
   grouping [Some (''P1'', ''e2'', ''c''), Some (''P2'', ''e1'', ''b''), None, Some (''P1'', ''e1'', ''a'')] =
     Some ([(''e2'', [''c'']), (''e1'', [''b'', ''a''])], [(''P1'', [''c'', ''a'']), (''P2'', [''b''])]) \<and>
   set (dict_keys [(''e2'', [''c'']), (''e1'', [''b'', ''a''])]) =
     set (dict_keys [(''e1'', [''a'', ''b'']), (''e2'', [''c''])]) \<and>
   set (dict_keys [(''P1'', [''c'', ''a'']), (''P2'', [''b''])]) =
     set (dict_keys [(''P1'', [''a'', ''c'']), (''P2'', [''b''])]) \<and>
   (\<forall>e. map_option set (dict_get e [(''e2'', [''c'']), (''e1'', [''b'', ''a''])]) =
        map_option set (dict_get e [(''e1'', [''a'', ''b'']), (''e2'', [''c''])])) \<and>
   (\<forall>k. map_option set (dict_get k [(''P1'', [''c'', ''a'']), (''P2'', [''b''])]) =
        map_option set (dict_get k [(''P1'', [''a'', ''c'']), (''P2'', [''b''])]))"
proof -
  let ?xs = "[Some (''P1'', ''e1'', ''a''), None, Some (''P2'', ''e1'', ''b''), Some (''P1'', ''e2'', ''c'')]"
  let ?ys = "[Some (''P1'', ''e2'', ''c''), Some (''P2'', ''e1'', ''b''), None, Some (''P1'', ''e1'', ''a'')]"
  have p: "mset ?ys = mset ?xs" by simp
  have gx: "grouping ?xs =
      Some ([(''e1'', [''a'', ''b'']), (''e2'', [''c''])], [(''P1'', [''a'', ''c'']), (''P2'', [''b''])])"
    by (simp add: grouping_def group_step_def dict_append_def dict_keys_def)
  have gy: "grouping ?ys =
      Some ([(''e2'', [''c'']), (''e1'', [''b'', ''a''])], [(''P1'', [''c'', ''a'']), (''P2'', [''b''])])"
    by (simp add: grouping_def group_step_def dict_append_def dict_keys_def)
  from grouping_order_independent [OF p] gx gy p show ?thesis
    by (simp only: option.inject prod.inject) blast
qed

subsection \<open>Classifier\<close>

lemma pan_format_shape:
  assumes "pan_format pan"
  shows "length pan = 10" "pan \<noteq> []" "take 1 pan \<noteq> ''/''" "last pan \<noteq> CHR ''/''"
proof -
  from assms show len: "length pan = 10" by (simp add: pan_format_def)
  then show ne: "pan \<noteq> []" by auto
  from assms len obtain c cs where c: "pan = c # cs" "re_upper c"
    by (cases pan) (auto simp: pan_format_def)
  then show "take 1 pan \<noteq> ''/''" by (auto simp: re_upper_def)
  from assms have "list_all re_upper (drop 9 pan)" by (simp add: pan_format_def)
  moreover have "drop 9 pan = [pan ! 9]"
    using len Cons_nth_drop_Suc [of 9 pan] by simp
  moreover have "last pan = pan ! 9"
    using len ne by (simp add: last_conv_nth)
  ultimately have "re_upper (last pan)" by simp
  then show "last pan \<noteq> CHR ''/''" by (auto simp: re_upper_def)
qed

lemma path_join_relative: "take 1 b \<noteq> ''/'' \<Longrightarrow> path_join a b = dir_prefix a @ b"
  by (simp add: path_join_def dir_prefix_def)

lemma stored_path_shape:
  assumes "pan_format pan" "take 1 f \<noteq> ''/''"
  shows "path_join (path_join d pan) f = dir_prefix d @ pan @ ''/'' @ f"
proof -
  from assms(1) have s: "pan \<noteq> []" "take 1 pan \<noteq> ''/''" "last pan \<noteq> CHR ''/''"
    by (rule pan_format_shape)+
  from s(2) have j: "path_join d pan = dir_prefix d @ pan" by (rule path_join_relative)
  from s(1,3) have "dir_prefix (dir_prefix d @ pan) = dir_prefix d @ pan @ ''/''"
    by (simp add: dir_prefix_def)
  with assms(2) j show ?thesis by (simp add: path_join_relative)
qed

lemma stored_path_owner:
  assumes "pan_format pan" "pan_format pan'" "take 1 f \<noteq> ''/''" "take 1 f' \<noteq> ''/''"
    and "path_join (path_join d pan) f = path_join (path_join d pan') f'"
  shows "pan = pan'"
proof -
  from assms have "dir_prefix d @ pan @ ''/'' @ f = dir_prefix d @ pan' @ ''/'' @ f'"
    by (simp add: stored_path_shape)
  then have "pan @ (''/'' @ f) = pan' @ (''/'' @ f')" by simp
  moreover from assms(1,2) have "length pan = length pan'"
    by (simp add: pan_format_shape(1))
  ultimately show ?thesis by (metis append_eq_append_conv)
qed

lemma match_here_format: "match_here s = Some code \<Longrightarrow> pan_format code"
  by (auto simp: match_here_def Let_def split: if_splits)

lemma re_search_format: "re_search s = Some code \<Longrightarrow> pan_format code"
  by (induction s) (auto simp: match_here_format split: option.splits)

lemma extract_pan_format:
  "extract_pan_from_pdf pdf_path w = (Some pan, w1) \<Longrightarrow> pan_format pan \<and> w1 = w"
  by (auto simp: extract_pan_from_pdf_def re_search_format split: sum.splits option.splits)

lemma makedirs_Inr: "makedirs d w = Inr w1 \<Longrightarrow> w1 = w"
  by (simp add: makedirs_def split: if_splits)

lemma process_pdf_Some_iff:
  "fst (process_pdf pdf_file pdf_dir output_dir df w) = Some t \<longleftrightarrow>
   classified pdf_file pdf_dir output_dir df w t"
proof -
  obtain pan email p where t: "t = (pan, email, p)" by (cases t)
  obtain found w1 where e: "extract_pan_from_pdf (path_join pdf_dir pdf_file) w = (found, w1)"
    by (cases "extract_pan_from_pdf (path_join pdf_dir pdf_file) w")
  show ?thesis
  proof (cases found)
    case None
    with e show ?thesis by (simp add: process_pdf_def classified_def t)
  next
    case (Some pan')
    with e have pf: "pan_format pan'" and w1: "w1 = w" using extract_pan_format by blast+
    then have ne: "pan' \<noteq> []" by (simp add: pan_format_shape(2))
    show ?thesis
    proof (cases "get_email_for_pan pan' df")
      case None
      with e Some ne show ?thesis
        by (auto simp: process_pdf_def classified_def t)
    next
      case em: (Some email')
      show ?thesis
      proof (cases "email' = []")
        case True
        with e Some ne em show ?thesis
          by (auto simp: process_pdf_def classified_def t)
      next
        case False
        show ?thesis
        proof (cases "makedirs (path_join output_dir pan') w")
          case (Inl x)
          with e Some ne em False w1 show ?thesis
            by (auto simp: process_pdf_def classified_def t)
        next
          case (Inr w2)
          then have w2: "w2 = w" by (rule makedirs_Inr)
          show ?thesis
          proof (cases "copy (path_join pdf_dir pdf_file) (path_join (path_join output_dir pan') pdf_file) w")
            case (Inl x)
            with e Some ne em False w1 Inr w2 show ?thesis
              by (auto simp: process_pdf_def classified_def t)
          next
            case cp: (Inr w3)
            with e Some ne em False w1 Inr w2 show ?thesis
              by (auto simp: process_pdf_def classified_def t)
          qed
        qed
      qed
    qed
  qed
qed

lemma process_pdf_stored:
  assumes "fst (process_pdf pdf_file pdf_dir output_dir df w) = Some (pan, email, p)"
  shows "pan_format pan \<and> p = path_join (path_join output_dir pan) pdf_file"
proof -
  from assms have c: "classified pdf_file pdf_dir output_dir df w (pan, email, p)"
    by (simp add: process_pdf_Some_iff)
  then have "fst (extract_pan_from_pdf (path_join pdf_dir pdf_file) w) = Some pan"
    by (simp add: classified_def)
  then have "pan_format pan"
    using extract_pan_format [of "path_join pdf_dir pdf_file" w pan]
    by (cases "extract_pan_from_pdf (path_join pdf_dir pdf_file) w") auto
  with c show ?thesis by (simp add: classified_def)
qed

lemma classify_Cons:
  "classify (f # fs) pdf_dir output_dir df w =
     (fst (process_pdf f pdf_dir output_dir df w) #
        fst (classify fs pdf_dir output_dir df (snd (process_pdf f pdf_dir output_dir df w))),
      snd (classify fs pdf_dir output_dir df (snd (process_pdf f pdf_dir output_dir df w))))"
  by (simp split: prod.splits)

lemma classify_length: "length (fst (classify fs pdf_dir output_dir df w)) = length fs"
  by (induction fs arbitrary: w) (simp_all only: classify_Cons classify.simps(1) fst_conv list.size)

lemma classify_nth:
  "i < length fs \<Longrightarrow>
   fst (classify fs pdf_dir output_dir df w) ! i =
     fst (process_pdf (fs ! i) pdf_dir output_dir df
       (snd (classify (take i fs) pdf_dir output_dir df w)))"
proof (induction fs arbitrary: w i)
  case Nil
  then show ?case by simp
next
  case (Cons f fs)
  show ?case
  proof (cases i)
    case 0
    then show ?thesis by (simp add: classify_Cons del: classify.simps(2))
  next
    case (Suc j)
    with Cons.prems have "j < length fs" by simp
    from Cons.IH [OF this] Suc show ?thesis
      by (simp add: classify_Cons del: classify.simps(2))
  qed
qed

lemma classify_results:
  "Some t \<in> set (fst (classify fs pdf_dir output_dir df w)) \<Longrightarrow>
   \<exists>f \<in> set fs. \<exists>w1. fst (process_pdf f pdf_dir output_dir df w1) = Some t"
proof -
  assume "Some t \<in> set (fst (classify fs pdf_dir output_dir df w))"
  then obtain i where i: "i < length fs" "fst (classify fs pdf_dir output_dir df w) ! i = Some t"
    by (auto simp: in_set_conv_nth classify_length)
  then have "fst (process_pdf (fs ! i) pdf_dir output_dir df
       (snd (classify (take i fs) pdf_dir output_dir df w))) = Some t"
    by (simp add: classify_nth)
  with i(1) show ?thesis by (meson nth_mem)
qed

lemma process_pdf_None_iff:
  "fst (process_pdf pdf_file pdf_dir output_dir df w) = None \<longleftrightarrow>
   extraction_failed pdf_file pdf_dir w \<or> resolution_failed pdf_file pdf_dir df w \<or>
   copy_failed pdf_file pdf_dir output_dir df w"
proof -
  obtain found w1 where e: "extract_pan_from_pdf (path_join pdf_dir pdf_file) w = (found, w1)"
    by (cases "extract_pan_from_pdf (path_join pdf_dir pdf_file) w")
  show ?thesis
  proof (cases found)
    case None
    with e show ?thesis by (simp add: process_pdf_def extraction_failed_def)
  next
    case (Some pan)
    with e have pf: "pan_format pan" and w1: "w1 = w" using extract_pan_format by blast+
    then have ne: "pan \<noteq> []" by (simp add: pan_format_shape(2))
    from e Some w1 ne show ?thesis
      by (auto simp: process_pdf_def extraction_failed_def resolution_failed_def
          copy_failed_def Let_def dest: makedirs_Inr split: option.splits sum.splits)
  qed
qed

lemma process_pdf_Some_stored:
  assumes "fst (process_pdf pdf_file pdf_dir output_dir df w) \<noteq> None"
  shows "\<exists>pan email. fst (process_pdf pdf_file pdf_dir output_dir df w) =
           Some (pan, email, path_join (path_join output_dir pan) pdf_file) \<and>
           pan_format pan \<and> get_email_for_pan pan df = Some email"
proof -
  from assms obtain t where t: "fst (process_pdf pdf_file pdf_dir output_dir df w) = Some t"
    by auto
  obtain pan email p where "t = (pan, email, p)" by (cases t)
  with t process_pdf_stored [of pdf_file pdf_dir output_dir df w pan email p]
    process_pdf_Some_iff [of pdf_file pdf_dir output_dir df w t]
  show ?thesis by (auto simp: classified_def)
qed

text \<open>
  C9: for every list of document file names the classification stage returns a list with
  exactly one slot per file name. The slot of a document is what \<^verbatim>\<open>process_pdf\<close> returns for
  it, run after the documents before it whatever happened to them; it holds absence when
  the extraction, the resolution or the copy of that document failed, and the triple with
  the staged path otherwise. No failure is raised: every failing step is answered inside
  \<^verbatim>\<open>process_pdf\<close>.
\<close>

theorem classifier_one_slot_per_document:
  "length (fst (classify pdf_files pdf_dir output_dir df w)) = length pdf_files \<and>
   (\<forall>i<length pdf_files.
      let pdf_file = pdf_files ! i;
          wi = snd (classify (take i pdf_files) pdf_dir output_dir df w);
          slot = fst (classify pdf_files pdf_dir output_dir df w) ! i
      in slot = fst (process_pdf pdf_file pdf_dir output_dir df wi) \<and>
         (extraction_failed pdf_file pdf_dir wi \<or> resolution_failed pdf_file pdf_dir df wi \<or>
          copy_failed pdf_file pdf_dir output_dir df wi \<longrightarrow> slot = None) \<and>
         (\<not> (extraction_failed pdf_file pdf_dir wi \<or> resolution_failed pdf_file pdf_dir df wi \<or>
             copy_failed pdf_file pdf_dir output_dir df wi) \<longrightarrow>
          (\<exists>pan email. slot = Some (pan, email, path_join (path_join output_dir pan) pdf_file))))"
proof (intro conjI allI impI)
  show "length (fst (classify pdf_files pdf_dir output_dir df w)) = length pdf_files"
    by (rule classify_length)
next
  fix i assume i: "i < length pdf_files"
  let ?f = "pdf_files ! i"
  let ?wi = "snd (classify (take i pdf_files) pdf_dir output_dir df w)"
  let ?slot = "fst (classify pdf_files pdf_dir output_dir df w) ! i"
  have s: "?slot = fst (process_pdf ?f pdf_dir output_dir df ?wi)"
    using i by (rule classify_nth)
  have n: "extraction_failed ?f pdf_dir ?wi \<or> resolution_failed ?f pdf_dir df ?wi \<or>
          copy_failed ?f pdf_dir output_dir df ?wi \<longrightarrow> ?slot = None"
    using s process_pdf_None_iff [of ?f pdf_dir output_dir df ?wi] by simp
  have y: "\<not> (extraction_failed ?f pdf_dir ?wi \<or> resolution_failed ?f pdf_dir df ?wi \<or>
             copy_failed ?f pdf_dir output_dir df ?wi) \<longrightarrow>
          (\<exists>pan email. ?slot = Some (pan, email, path_join (path_join output_dir pan) ?f))"
    using s process_pdf_None_iff [of ?f pdf_dir output_dir df ?wi]
      process_pdf_Some_stored [of ?f pdf_dir output_dir df ?wi] by metis
  from s n y show "let pdf_file = pdf_files ! i;
          wi = snd (classify (take i pdf_files) pdf_dir output_dir df w);
          slot = fst (classify pdf_files pdf_dir output_dir df w) ! i
      in slot = fst (process_pdf pdf_file pdf_dir output_dir df wi) \<and>
         (extraction_failed pdf_file pdf_dir wi \<or> resolution_failed pdf_file pdf_dir df wi \<or>
          copy_failed pdf_file pdf_dir output_dir df wi \<longrightarrow> slot = None) \<and>
         (\<not> (extraction_failed pdf_file pdf_dir wi \<or> resolution_failed pdf_file pdf_dir df wi \<or>
             copy_failed pdf_file pdf_dir output_dir df wi) \<longrightarrow>
          (\<exists>pan email. slot = Some (pan, email, path_join (path_join output_dir pan) pdf_file)))"
    unfolding Let_def by blast
qed

lemma sample_results:
  "fst (classify sample_files ''in'' ''out'' sample_table sample_world) =
     [Some (''ABCDE1234F'', ''a@x.com'', ''out/ABCDE1234F/a.pdf''), None, None, None, None,
      Some (''FGHIJ5678K'', ''a@x.com'', ''out/FGHIJ5678K/f.pdf'')]"
  by code_simp

lemma sample_grouping:
  "grouping [Some (''ABCDE1234F'', ''a@x.com'', ''out/ABCDE1234F/a.pdf''), None, None, None, None,
      Some (''FGHIJ5678K'', ''a@x.com'', ''out/FGHIJ5678K/f.pdf'')] =
   Some ([(''a@x.com'', [''out/ABCDE1234F/a.pdf'', ''out/FGHIJ5678K/f.pdf''])],
         [(''ABCDE1234F'', [''out/ABCDE1234F/a.pdf'']), (''FGHIJ5678K'', [''out/FGHIJ5678K/f.pdf''])])"
  by code_simp

theorem classifier_one_slot_per_document_witness:
  "length (fst (classify sample_files ''in'' ''out'' sample_table sample_world)) =
     length sample_files \<and>
   1 < length sample_files \<and>
   extraction_failed (sample_files ! 1) ''in''
     (snd (classify (take 1 sample_files) ''in'' ''out'' sample_table sample_world)) \<and>
   fst (classify sample_files ''in'' ''out'' sample_table sample_world) ! 1 = None \<and>
   4 < length sample_files \<and>
   copy_failed (sample_files ! 4) ''in'' ''out'' sample_table
     (snd (classify (take 4 sample_files) ''in'' ''out'' sample_table sample_world)) \<and>
   fst (classify sample_files ''in'' ''out'' sample_table sample_world) ! 4 = None \<and>
   5 < length sample_files \<and>
   \<not> (extraction_failed (sample_files ! 5) ''in''
        (snd (classify (take 5 sample_files) ''in'' ''out'' sample_table sample_world)) \<or>
      resolution_failed (sample_files ! 5) ''in'' sample_table
        (snd (classify (take 5 sample_files) ''in'' ''out'' sample_table sample_world)) \<or>
      copy_failed (sample_files ! 5) ''in'' ''out'' sample_table
        (snd (classify (take 5 sample_files) ''in'' ''out'' sample_table sample_world))) \<and>
   (\<exists>pan email. fst (classify sample_files ''in'' ''out'' sample_table sample_world) ! 5 =
      Some (pan, email, path_join (path_join ''out'' pan) (sample_files ! 5)))"
proof -
  let ?slots = "fst (classify sample_files ''in'' ''out'' sample_table sample_world)"
  let ?w = "\<lambda>i. snd (classify (take i sample_files) ''in'' ''out'' sample_table sample_world)"
  note t = classifier_one_slot_per_document
    [of sample_files "''in''" "''out''" sample_table sample_world, unfolded Let_def]
  have l: "1 < length sample_files" "4 < length sample_files" "5 < length sample_files"
    by (simp_all add: sample_files_def)
  have e1: "extraction_failed (sample_files ! 1) ''in'' (?w 1)" by code_simp
  have c4: "copy_failed (sample_files ! 4) ''in'' ''out'' sample_table (?w 4)" by code_simp
  have ok5: "\<not> (extraction_failed (sample_files ! 5) ''in'' (?w 5) \<or>
      resolution_failed (sample_files ! 5) ''in'' sample_table (?w 5) \<or>
      copy_failed (sample_files ! 5) ''in'' ''out'' sample_table (?w 5))" by code_simp
  from t have len: "length ?slots = length sample_files" by blast
  from t l(1) e1 have s1: "?slots ! 1 = None" by blast
  from t l(2) c4 have s4: "?slots ! 4 = None" by blast
  from t l(3) ok5 have s5: "\<exists>pan email. ?slots ! 5 =
      Some (pan, email, path_join (path_join ''out'' pan) (sample_files ! 5))" by blast
  from len l e1 s1 c4 s4 ok5 s5 show ?thesis by blast
qed

subsection \<open>Attachments and their identifiers\<close>

lemma owner_of_found:
  assumes "(pan, fs) \<in> set pan_to_files" "pdf_path \<in> set fs"
  shows "\<exists>pan' fs'. owner_of pdf_path pan_to_files = Inr pan' \<and> (pan', fs') \<in> set pan_to_files \<and>
           pdf_path \<in> set fs'"
proof -
  let ?hits = "filter (\<lambda>(pan, fs). pdf_path \<in> set fs) pan_to_files"
  from assms have "(pan, fs) \<in> set ?hits" by simp
  then obtain pan' fs' rest where h: "?hits = (pan', fs') # rest"
    by (cases ?hits) auto
  then have "(pan', fs') \<in> set ?hits" by simp
  then have "(pan', fs') \<in> set pan_to_files \<and> pdf_path \<in> set fs'" by simp
  moreover from h have "owner_of pdf_path pan_to_files = Inr pan'"
    by (simp add: owner_of_def)
  ultimately show ?thesis by blast
qed

text \<open>
  C8: after grouping the results of the classification (of file names as a directory
  listing gives them, none starting with a slash), every stored path in the attachment
  list of any recipient group is in the path list of exactly one identifier of the
  identifier-to-paths mapping, and the reverse lookup of the archival stage finds an
  identifier for it.
\<close>

theorem every_attachment_has_one_owner:
  assumes names: "\<forall>f \<in> set pdf_files. take 1 f \<noteq> ''/''"
  shows "\<exists>email_groups pan_to_files.
     grouping (fst (classify pdf_files pdf_dir output_dir df w)) = Some (email_groups, pan_to_files) \<and>
     (\<forall>(email, attachments) \<in> set email_groups. \<forall>pdf_path \<in> set attachments.
        (\<exists>!pan. \<exists>fs. (pan, fs) \<in> set pan_to_files \<and> pdf_path \<in> set fs) \<and>
        (\<exists>pan fs. owner_of pdf_path pan_to_files = Inr pan \<and> (pan, fs) \<in> set pan_to_files \<and>
           pdf_path \<in> set fs))"
proof -
  let ?rs = "fst (classify pdf_files pdf_dir output_dir df w)"
  from grouping_char [of ?rs] obtain eg pf where
    g: "grouping ?rs = Some (eg, pf)"
    and ge: "\<forall>e. dict_get e eg = (if paths_by_email e ?rs = [] then None else Some (paths_by_email e ?rs))"
    and gk: "\<forall>k. dict_get k pf = (if paths_by_pan k ?rs = [] then None else Some (paths_by_pan k ?rs))"
    and de: "distinct (dict_keys eg)" and dk: "distinct (dict_keys pf)"
    by blast
  have stored: "\<exists>f \<in> set pdf_files. pan_format pan \<and> p = path_join (path_join output_dir pan) f"
    if "Some (pan, email, p) \<in> set ?rs" for pan email p
    using classify_results [OF that] process_pdf_stored by blast
  have in_pf: "(pan, fs) \<in> set pf \<and> p \<in> set fs \<longleftrightarrow>
      fs = paths_by_pan pan ?rs \<and> (\<exists>email. Some (pan, email, p) \<in> set ?rs)" for pan fs p
  proof -
    have "(pan, fs) \<in> set pf \<longleftrightarrow> dict_get pan pf = Some fs"
      using dk by (simp add: dict_get_Some_set)
    also have "\<dots> \<longleftrightarrow> paths_by_pan pan ?rs \<noteq> [] \<and> fs = paths_by_pan pan ?rs"
      using gk by auto
    finally show ?thesis
      using set_paths_by_pan [of pan ?rs] by auto
  qed
  have "(\<exists>!pan. \<exists>fs. (pan, fs) \<in> set pf \<and> p \<in> set fs) \<and>
        (\<exists>pan fs. owner_of p pf = Inr pan \<and> (pan, fs) \<in> set pf \<and> p \<in> set fs)"
    if m: "(email, atts) \<in> set eg" and p: "p \<in> set atts" for email atts p
  proof -
    from m de have "dict_get email eg = Some atts" by (simp add: dict_get_Some_set)
    with ge have "atts = paths_by_email email ?rs"
      by (auto split: if_splits)
    with p obtain pan where t: "Some (pan, email, p) \<in> set ?rs"
      by (auto simp: set_paths_by_email)
    then have own: "(pan, paths_by_pan pan ?rs) \<in> set pf \<and> p \<in> set (paths_by_pan pan ?rs)"
      using in_pf by blast
    have uniq: "pan' = pan" if "(pan', fs) \<in> set pf \<and> p \<in> set fs" for pan' fs
    proof -
      from that in_pf obtain email' where t': "Some (pan', email', p) \<in> set ?rs" by blast
      from stored [OF t] obtain f where
        f: "f \<in> set pdf_files" "pan_format pan" "p = path_join (path_join output_dir pan) f"
        by blast
      from stored [OF t'] obtain f' where
        f': "f' \<in> set pdf_files" "pan_format pan'" "p = path_join (path_join output_dir pan') f'"
        by blast
      from names f(1) f'(1) have "take 1 f \<noteq> ''/''" "take 1 f' \<noteq> ''/''" by blast+
      with f(2,3) f'(2,3) show ?thesis
        using stored_path_owner [of pan' pan f' f output_dir] by simp
    qed
    from own uniq have "\<exists>!pan. \<exists>fs. (pan, fs) \<in> set pf \<and> p \<in> set fs" by blast
    moreover from own owner_of_found
    have "\<exists>pan fs. owner_of p pf = Inr pan \<and> (pan, fs) \<in> set pf \<and> p \<in> set fs" by blast
    ultimately show ?thesis by blast
  qed
  with g show ?thesis by blast
qed

theorem every_attachment_has_one_owner_witness:
  "list_all (\<lambda>f. take 1 f \<noteq> ''/'') sample_files \<and>
   grouping (fst (classify sample_files ''in'' ''out'' sample_table sample_world)) =
     Some ([(''a@x.com'', [''out/ABCDE1234F/a.pdf'', ''out/FGHIJ5678K/f.pdf''])],
           [(''ABCDE1234F'', [''out/ABCDE1234F/a.pdf'']),
            (''FGHIJ5678K'', [''out/FGHIJ5678K/f.pdf''])]) \<and>
   (\<exists>!pan. \<exists>fs. (pan, fs) \<in> set [(''ABCDE1234F'', [''out/ABCDE1234F/a.pdf'']),
            (''FGHIJ5678K'', [''out/FGHIJ5678K/f.pdf''])] \<and> ''out/FGHIJ5678K/f.pdf'' \<in> set fs) \<and>
   (\<exists>pan fs. owner_of ''out/FGHIJ5678K/f.pdf'' [(''ABCDE1234F'', [''out/ABCDE1234F/a.pdf'']),
            (''FGHIJ5678K'', [''out/FGHIJ5678K/f.pdf''])] = Inr pan \<and>
      (pan, fs) \<in> set [(''ABCDE1234F'', [''out/ABCDE1234F/a.pdf'']),
            (''FGHIJ5678K'', [''out/FGHIJ5678K/f.pdf''])] \<and> ''out/FGHIJ5678K/f.pdf'' \<in> set fs)"
proof -
  let ?eg = "[(''a@x.com'', [''out/ABCDE1234F/a.pdf'', ''out/FGHIJ5678K/f.pdf''])]"
  let ?pf = "[(''ABCDE1234F'', [''out/ABCDE1234F/a.pdf'']),
            (''FGHIJ5678K'', [''out/FGHIJ5678K/f.pdf''])]"
  have names: "\<forall>f \<in> set sample_files. take 1 f \<noteq> ''/''"
    by (simp add: sample_files_def)
  then have names': "list_all (\<lambda>f. take 1 f \<noteq> ''/'') sample_files"
    by (simp add: list_all_iff)
  have g: "grouping (fst (classify sample_files ''in'' ''out'' sample_table sample_world)) =
      Some (?eg, ?pf)"
    by (simp only: sample_results sample_grouping)
  from every_attachment_has_one_owner [OF names, of "''in''" "''out''" sample_table sample_world]
  have "\<forall>(email, attachments) \<in> set ?eg. \<forall>pdf_path \<in> set attachments.
        (\<exists>!pan. \<exists>fs. (pan, fs) \<in> set ?pf \<and> pdf_path \<in> set fs) \<and>
        (\<exists>pan fs. owner_of pdf_path ?pf = Inr pan \<and> (pan, fs) \<in> set ?pf \<and> pdf_path \<in> set fs)"
    unfolding g by (simp only: option.inject prod.inject) blast
  then have "(\<exists>!pan. \<exists>fs. (pan, fs) \<in> set ?pf \<and> ''out/FGHIJ5678K/f.pdf'' \<in> set fs) \<and>
        (\<exists>pan fs. owner_of ''out/FGHIJ5678K/f.pdf'' ?pf = Inr pan \<and> (pan, fs) \<in> set ?pf \<and>
           ''out/FGHIJ5678K/f.pdf'' \<in> set fs)"
    by simp
  with names' g show ?thesis by blast
qed

subsection \<open>Selection of the documents\<close>

lemma py_lower_char_eq:
  assumes "(of_char t :: nat) < 192" "\<not> (65 \<le> (of_char t :: nat) \<and> (of_char t :: nat) \<le> 90)"
  shows "py_lower_char c = t \<longleftrightarrow> c = t \<or> (65 \<le> (of_char c :: nat) \<and> (of_char c :: nat) \<le> 90 \<and> of_char c + 32 = (of_char t :: nat))"
proof -
  let ?n = "of_char c :: nat"
  have lt: "?n < 256" by simp
  show ?thesis
  proof (cases "(65 \<le> ?n \<and> ?n \<le> 90) \<or> (192 \<le> ?n \<and> ?n \<le> 222 \<and> ?n \<noteq> 215)")
    case True
    then have l: "py_lower_char c = char_of (?n + 32)" by (simp add: py_lower_char_def Let_def)
    have "char_of (?n + 32) = t \<longleftrightarrow> ?n + 32 = (of_char t :: nat)"
    proof
      assume "char_of (?n + 32) = t"
      then have "(of_char (char_of (?n + 32) :: char) :: nat) = of_char t" by simp
      then have "(?n + 32) mod 256 = of_char t" by simp
      moreover from True have "?n + 32 < 256" by auto
      ultimately show "?n + 32 = (of_char t :: nat)" by simp
    next
      assume "?n + 32 = (of_char t :: nat)"
      then have "char_of (?n + 32) = (char_of (of_char t :: nat) :: char)" by simp
      then show "char_of (?n + 32) = t" by simp
    qed
    moreover have "c \<noteq> t" using True assms by auto
    ultimately show ?thesis using l True assms by auto
  next
    case False
    then have "py_lower_char c = c" by (auto simp: py_lower_char_def Let_def)
    with False show ?thesis by auto
  qed
qed

lemma of_char_is: "(of_char c :: nat) = of_char t \<longleftrightarrow> c = t"
  by simp

lemma lower_dot: "py_lower_char c = CHR ''.'' \<longleftrightarrow> c = CHR ''.''"
  by (subst py_lower_char_eq) auto

lemma lower_p: "py_lower_char c = CHR ''p'' \<longleftrightarrow> c = CHR ''p'' \<or> c = CHR ''P''"
proof -
  have "(of_char c :: nat) + 32 = of_char CHR ''p'' \<longleftrightarrow> (of_char c :: nat) = of_char CHR ''P''"
    by auto
  then have "(of_char c :: nat) + 32 = of_char CHR ''p'' \<longleftrightarrow> c = CHR ''P''"
    by (simp only: of_char_is)
  moreover have "c = CHR ''P'' \<Longrightarrow> 65 \<le> (of_char c :: nat) \<and> (of_char c :: nat) \<le> 90" by simp
  ultimately show ?thesis by (subst py_lower_char_eq) auto
qed

lemma lower_d: "py_lower_char c = CHR ''d'' \<longleftrightarrow> c = CHR ''d'' \<or> c = CHR ''D''"
proof -
  have "(of_char c :: nat) + 32 = of_char CHR ''d'' \<longleftrightarrow> (of_char c :: nat) = of_char CHR ''D''"
    by auto
  then have "(of_char c :: nat) + 32 = of_char CHR ''d'' \<longleftrightarrow> c = CHR ''D''"
    by (simp only: of_char_is)
  moreover have "c = CHR ''D'' \<Longrightarrow> 65 \<le> (of_char c :: nat) \<and> (of_char c :: nat) \<le> 90" by simp
  ultimately show ?thesis by (subst py_lower_char_eq) auto
qed

lemma lower_f: "py_lower_char c = CHR ''f'' \<longleftrightarrow> c = CHR ''f'' \<or> c = CHR ''F''"
proof -
  have "(of_char c :: nat) + 32 = of_char CHR ''f'' \<longleftrightarrow> (of_char c :: nat) = of_char CHR ''F''"
    by auto
  then have "(of_char c :: nat) + 32 = of_char CHR ''f'' \<longleftrightarrow> c = CHR ''F''"
    by (simp only: of_char_is)
  moreover have "c = CHR ''F'' \<Longrightarrow> 65 \<le> (of_char c :: nat) \<and> (of_char c :: nat) \<le> 90" by simp
  ultimately show ?thesis by (subst py_lower_char_eq) auto
qed

lemma py_endswith_iff: "py_endswith s suffix \<longleftrightarrow> (\<exists>stem. s = stem @ suffix)"
proof
  assume "py_endswith s suffix"
  then have "s = take (length s - length suffix) s @ suffix"
    by (metis append_take_drop_id py_endswith_def)
  then show "\<exists>stem. s = stem @ suffix" ..
next
  assume "\<exists>stem. s = stem @ suffix"
  then show "py_endswith s suffix" by (auto simp: py_endswith_def)
qed

lemma pdf_name_iff: "py_endswith (py_lower f) ''.pdf'' \<longleftrightarrow> pdf_name f"
proof
  assume "py_endswith (py_lower f) ''.pdf''"
  then obtain stem where s: "map py_lower_char f = stem @ ''.pdf''"
    by (auto simp: py_endswith_iff py_lower_def)
  then obtain f1 f2 where f: "f = f1 @ f2" "map py_lower_char f1 = stem"
    "map py_lower_char f2 = ''.pdf''"
    by (auto simp: map_eq_append_conv)
  from f(3) obtain a p d e where "f2 = [a, p, d, e]" "py_lower_char a = CHR ''.''"
    "py_lower_char p = CHR ''p''" "py_lower_char d = CHR ''d''" "py_lower_char e = CHR ''f''"
    by (auto simp: map_eq_Cons_conv)
  with f(1) show "pdf_name f"
    unfolding pdf_name_def lower_dot lower_p lower_d lower_f by blast
next
  assume "pdf_name f"
  then obtain stem p d e where "f = stem @ [CHR ''.'', p, d, e]"
    "py_lower_char p = CHR ''p''" "py_lower_char d = CHR ''d''" "py_lower_char e = CHR ''f''"
    unfolding pdf_name_def lower_p lower_d lower_f by blast
  moreover have "py_lower_char CHR ''.'' = CHR ''.''" by (simp add: lower_dot)
  ultimately have "py_lower f = map py_lower_char stem @ ''.pdf''"
    by (simp add: py_lower_def)
  then show "py_endswith (py_lower f) ''.pdf''"
    unfolding py_endswith_iff by blast
qed

lemma select_pdf_files_filter: "select_pdf_files entries = filter pdf_name entries"
  by (simp add: select_pdf_files_def pdf_name_iff)

text \<open>
  C10: the entries of the source directory that go to classification are exactly those
  whose name ends in \<^verbatim>\<open>.pdf\<close> with the letters in either case, in the order of the listing;
  every other entry is ignored: the run is the one of a directory that holds the selected
  entries only.
\<close>

theorem only_pdf_names_are_classified:
  "select_pdf_files entries = filter pdf_name entries \<and>
   main (cfg\<lparr>listing := Some entries\<rparr>) w = main (cfg\<lparr>listing := Some (filter pdf_name entries)\<rparr>) w"
proof -
  have "select_pdf_files (filter pdf_name entries) = select_pdf_files entries"
    by (simp add: select_pdf_files_filter)
  then have "main_try (cfg\<lparr>listing := Some entries\<rparr>) w =
      main_try (cfg\<lparr>listing := Some (filter pdf_name entries)\<rparr>) w"
    by (simp add: main_try_def Let_def split: sum.split)
  then show ?thesis by (simp add: main_def select_pdf_files_filter)
qed

subsection \<open>Dispatch and archival\<close>

lemma logw_proj [simp]:
  "files (logw e w) = files w" "faulty (logw e w) = faulty w" "smtp (logw e w) = smtp w"
  "attempts (logw e w) = attempts w" "admitted (logw e w) = admitted w"
  "sleeps (logw e w) = sleeps w" "clock (logw e w) = clock w" "log (logw e w) = log w @ [e]"
  by (simp_all add: logw_def)

lemma sleep_proj [simp]:
  "files (sleep d w) = files w" "faulty (sleep d w) = faulty w" "smtp (sleep d w) = smtp w"
  "attempts (sleep d w) = attempts w" "admitted (sleep d w) = admitted w"
  "sleeps (sleep d w) = sleeps w @ [d]" "clock (sleep d w) = clock w + d" "log (sleep d w) = log w"
  by (simp_all add: sleep_def)

lemma rate_limit_proj [simp]:
  "files (rate_limit w) = files w" "faulty (rate_limit w) = faulty w"
  "smtp (rate_limit w) = smtp w" "attempts (rate_limit w) = attempts w"
  "sleeps (rate_limit w) = sleeps w" "log (rate_limit w) = log w"
  by (simp_all add: rate_limit_def Let_def)

lemma deliver_eq:
  "deliver email attachments w =
     (attempt_ok attachments w (length (attempts w)),
      w\<lparr>attempts := attempts w @ [clock w],
        clock := clock w + snd (smtp w (length (attempts w)))\<rparr>)"
  by (simp add: deliver_def attempt_ok_def split: prod.splits)

lemma after_failure_proj [simp]:
  "files (after_failure email k w) = files w" "faulty (after_failure email k w) = faulty w"
  "smtp (after_failure email k w) = smtp w" "admitted (after_failure email k w) = admitted w"
  "attempts (after_failure email k w) = attempts w @ [clock w]"
  "sleeps (after_failure email k w) = sleeps w @ [backoff k]"
  "clock (after_failure email k w) = clock w + snd (smtp w (length (attempts w))) + backoff k"
  by (simp_all add: after_failure_def)

lemma retry_loop_fail:
  "\<not> attempt_ok atts w (length (attempts w)) \<Longrightarrow>
   retry_loop (k # ks) email atts w = retry_loop ks email atts (after_failure email k w)"
  by (simp add: deliver_eq after_failure_def backoff_def Let_def)

lemma retry_loop_success:
  "attempt_ok atts w (length (attempts w)) \<Longrightarrow>
   retry_loop (k # ks) email atts w =
     (True, logw (InfoEmailSent email (length atts))
        (w\<lparr>attempts := attempts w @ [clock w],
           clock := clock w + snd (smtp w (length (attempts w)))\<rparr>))"
  by (simp add: deliver_eq)

lemma retry_loop_failures:
  "\<forall>j<length ks1. \<not> attempt_ok atts w (length (attempts w) + j) \<Longrightarrow>
   retry_loop (ks1 @ ks2) email atts w = retry_loop ks2 email atts (after_failures email ks1 w)"
proof (induction ks1 arbitrary: w)
  case Nil
  then show ?case by simp
next
  case (Cons k ks1)
  from Cons.prems have f0: "\<not> attempt_ok atts w (length (attempts w))" by force
  have rest: "\<forall>j<length ks1. \<not> attempt_ok atts (after_failure email k w)
      (length (attempts (after_failure email k w)) + j)"
  proof (intro allI impI)
    fix j assume "j < length ks1"
    then have "Suc j < length (k # ks1)" by simp
    with Cons.prems have "\<not> attempt_ok atts w (length (attempts w) + Suc j)" by blast
    then show "\<not> attempt_ok atts (after_failure email k w)
      (length (attempts (after_failure email k w)) + j)"
      by (simp add: attempt_ok_def)
  qed
  have "retry_loop ((k # ks1) @ ks2) email atts w =
      retry_loop (ks1 @ ks2) email atts (after_failure email k w)"
    using retry_loop_fail [OF f0, of k "ks1 @ ks2" email] by simp
  with Cons.IH [OF rest] show ?case by simp
qed

lemma after_failures_proj [simp]:
  "files (after_failures email ks w) = files w" "faulty (after_failures email ks w) = faulty w"
  "smtp (after_failures email ks w) = smtp w" "admitted (after_failures email ks w) = admitted w"
  "sleeps (after_failures email ks w) = sleeps w @ map backoff ks"
  "length (attempts (after_failures email ks w)) = length (attempts w) + length ks"
  by (induction ks arbitrary: w) simp_all

text \<open>
  The start times of the attempts of a run of failures: the first one at the clock, each
  later one after the duration of the one before and its backoff delay; the clock at the
  end is where a next attempt would start.
\<close>

lemma after_failures_times:
  "take (length (attempts w)) (attempts (after_failures email ks w)) = attempts w \<and>
   (attempts (after_failures email ks w) @ [clock (after_failures email ks w)]) ! length (attempts w)
     = clock w \<and>
   (\<forall>j<length ks.
      (attempts (after_failures email ks w) @ [clock (after_failures email ks w)])
         ! (length (attempts w) + j + 1) =
      (attempts (after_failures email ks w) @ [clock (after_failures email ks w)])
         ! (length (attempts w) + j) + snd (smtp w (length (attempts w) + j)) + backoff (ks ! j))"
proof (induction ks arbitrary: w)
  case Nil
  then show ?case by (simp add: nth_append)
next
  case (Cons k ks)
  let ?w1 = "after_failure email k w"
  let ?w' = "after_failures email ks ?w1"
  let ?ts = "attempts ?w' @ [clock ?w']"
  let ?a = "length (attempts w)"
  note ih = Cons.IH [of ?w1]
  have a1: "length (attempts ?w1) = Suc ?a" by simp
  from ih have tk: "take (Suc ?a) (attempts ?w') = attempts w @ [clock w]"
    by simp
  have len: "length (attempts ?w') = Suc ?a + length ks" by simp
  have "take ?a (take (Suc ?a) (attempts ?w')) = take ?a (attempts w @ [clock w])"
    by (simp only: tk)
  then have pre: "take ?a (attempts ?w') = attempts w" by simp
  have "take (Suc ?a) (attempts ?w') ! ?a = (attempts w @ [clock w]) ! ?a"
    by (simp only: tk)
  then have at_a: "attempts ?w' ! ?a = clock w" by simp
  have ts_a: "?ts ! ?a = clock w" using at_a len by (simp add: nth_append)
  from ih have first: "?ts ! Suc ?a = clock ?w1" by simp
  from ih have gaps: "\<forall>j<length ks. ?ts ! (Suc ?a + j + 1) =
      ?ts ! (Suc ?a + j) + snd (smtp w (Suc ?a + j)) + backoff (ks ! j)"
    by simp
  have "\<forall>j<length (k # ks). ?ts ! (?a + j + 1) =
      ?ts ! (?a + j) + snd (smtp w (?a + j)) + backoff ((k # ks) ! j)"
  proof (intro allI impI)
    fix j assume j: "j < length (k # ks)"
    show "?ts ! (?a + j + 1) = ?ts ! (?a + j) + snd (smtp w (?a + j)) + backoff ((k # ks) ! j)"
    proof (cases j)
      case 0
      with first ts_a show ?thesis by simp
    next
      case (Suc i)
      with j have "i < length ks" by simp
      with gaps Suc show ?thesis by simp
    qed
  qed
  with pre ts_a show ?case by simp
qed

lemma attempt_ok_rate_limit [simp]: "attempt_ok atts (rate_limit w) k = attempt_ok atts w k"
  by (simp add: attempt_ok_def)

text \<open>
  C4: in a call of the dispatch function whose first \<open>n\<close> delivery attempts fail, the loop
  sleeps the base delay times \<open>2 ^ k\<close> after failed attempt \<open>k\<close>, so attempt \<open>k + 1\<close> starts
  that long after attempt \<open>k\<close> ended, for every \<open>k\<close> up to the last but one attempt; the call
  makes at most \<^verbatim>\<open>MAX_RETRIES\<close> attempts, reports success at the first attempt that goes
  through and failure when all have failed.
\<close>

theorem retry_backoff_doubles:
  assumes n: "n \<le> MAX_RETRIES"
    and fails: "\<forall>k<n. \<not> attempt_ok attachments w (length (attempts w) + k)"
    and succeeds: "n < MAX_RETRIES \<longrightarrow> attempt_ok attachments w (length (attempts w) + n)"
  shows "\<exists>w'. send_grouped_email_with_retry email attachments w = (n < MAX_RETRIES, w') \<and>
     sleeps w' = sleeps w @ map (\<lambda>k. BASE_DELAY * 2 ^ k) [0..<n] \<and>
     length (attempts w') = length (attempts w) + (if n < MAX_RETRIES then n + 1 else MAX_RETRIES) \<and>
     (\<forall>k<n. k + 1 < MAX_RETRIES \<longrightarrow>
        attempts w' ! (length (attempts w) + k + 1) =
          attempts w' ! (length (attempts w) + k) + snd (smtp w (length (attempts w) + k)) +
          BASE_DELAY * 2 ^ k)"
proof -
  let ?w0 = "rate_limit w"
  let ?a = "length (attempts w)"
  let ?wf = "after_failures email [0..<n] ?w0"
  have bk: "map backoff [0..<n] = map (\<lambda>k. BASE_DELAY * 2 ^ k) [0..<n]"
    by (simp add: backoff_def)
  have f0: "\<forall>j<length [0..<n]. \<not> attempt_ok attachments ?w0 (length (attempts ?w0) + j)"
    using fails by simp
  have times: "\<forall>j<n. (attempts ?wf @ [clock ?wf]) ! (?a + j + 1) =
      (attempts ?wf @ [clock ?wf]) ! (?a + j) + snd (smtp w (?a + j)) + BASE_DELAY * 2 ^ j"
    using after_failures_times [of ?w0 email "[0..<n]"] by (simp add: backoff_def)
  have lf: "length (attempts ?wf) = ?a + n" by simp
  show ?thesis
  proof (cases "n < MAX_RETRIES")
    case True
    then have split: "[0..<MAX_RETRIES] = [0..<n] @ n # [Suc n..<MAX_RETRIES]"
      by (metis upt_conv_Cons upt_add_eq_append le_add_diff_inverse less_imp_le_nat zero_le)
    let ?w' = "logw (InfoEmailSent email (length attachments))
        (?wf\<lparr>attempts := attempts ?wf @ [clock ?wf],
           clock := clock ?wf + snd (smtp ?wf (length (attempts ?wf)))\<rparr>)"
    from True succeeds have "attempt_ok attachments ?wf (length (attempts ?wf))"
      by (simp add: attempt_ok_def)
    then have "retry_loop (n # [Suc n..<MAX_RETRIES]) email attachments ?wf = (True, ?w')"
      by (rule retry_loop_success)
    with retry_loop_failures [OF f0, of "n # [Suc n..<MAX_RETRIES]" email]
    have r: "send_grouped_email_with_retry email attachments w = (True, ?w')"
      by (simp add: send_grouped_email_with_retry_def split)
    have a': "attempts ?w' = attempts ?wf @ [clock ?wf]" by simp
    have "sleeps ?w' = sleeps w @ map (\<lambda>k. BASE_DELAY * 2 ^ k) [0..<n]"
      using bk by simp
    moreover have "length (attempts ?w') = ?a + (n + 1)" by simp
    moreover have "\<forall>k<n. k + 1 < MAX_RETRIES \<longrightarrow> attempts ?w' ! (?a + k + 1) =
        attempts ?w' ! (?a + k) + snd (smtp w (?a + k)) + BASE_DELAY * 2 ^ k"
      using times unfolding a' by blast
    ultimately show ?thesis using r True by (intro exI [of _ ?w']) simp
  next
    case False
    with n have m: "n = MAX_RETRIES" by simp
    let ?w' = "logw (ErrorSendFailed email MAX_RETRIES) ?wf"
    from retry_loop_failures [OF f0, of "[]" email]
    have r: "send_grouped_email_with_retry email attachments w = (False, ?w')"
      by (simp add: send_grouped_email_with_retry_def m)
    have "sleeps ?w' = sleeps w @ map (\<lambda>k. BASE_DELAY * 2 ^ k) [0..<n]"
      using bk by simp
    moreover have "length (attempts ?w') = ?a + MAX_RETRIES" using m by simp
    moreover have "\<forall>k<n. k + 1 < MAX_RETRIES \<longrightarrow> attempts ?w' ! (?a + k + 1) =
        attempts ?w' ! (?a + k) + snd (smtp w (?a + k)) + BASE_DELAY * 2 ^ k"
    proof (intro allI impI)
      fix k assume k: "k < n" "k + 1 < MAX_RETRIES"
      then have "?a + k + 1 < length (attempts ?wf)" "?a + k < length (attempts ?wf)"
        using m by simp_all
      then have "(attempts ?wf @ [clock ?wf]) ! (?a + k + 1) = attempts ?wf ! (?a + k + 1)"
        "(attempts ?wf @ [clock ?wf]) ! (?a + k) = attempts ?wf ! (?a + k)"
        by (simp_all only: nth_append if_True)
      with times k(1) show "attempts ?w' ! (?a + k + 1) =
        attempts ?w' ! (?a + k) + snd (smtp w (?a + k)) + BASE_DELAY * 2 ^ k"
        by simp
    qed
    ultimately show ?thesis using r False by (intro exI [of _ ?w']) simp
  qed
qed

theorem retry_backoff_doubles_witness:
  "2 \<le> MAX_RETRIES \<and>
   \<not> attempt_ok [''s/a''] retry_world 0 \<and> \<not> attempt_ok [''s/a''] retry_world 1 \<and>
   attempt_ok [''s/a''] retry_world 2 \<and>
   fst (send_grouped_email_with_retry ''e'' [''s/a''] retry_world) = True \<and>
   sleeps (snd (send_grouped_email_with_retry ''e'' [''s/a''] retry_world)) = [1, 2] \<and>
   length (attempts (snd (send_grouped_email_with_retry ''e'' [''s/a''] retry_world))) = 3 \<and>
   attempts (snd (send_grouped_email_with_retry ''e'' [''s/a''] retry_world)) ! 1 =
     attempts (snd (send_grouped_email_with_retry ''e'' [''s/a''] retry_world)) ! 0 + 3 + 1 \<and>
   attempts (snd (send_grouped_email_with_retry ''e'' [''s/a''] retry_world)) ! 2 =
     attempts (snd (send_grouped_email_with_retry ''e'' [''s/a''] retry_world)) ! 1 + 3 + 2 \<and>
   fst (send_grouped_email_with_retry ''e'' [''s/b''] retry_world) = False \<and>
   sleeps (snd (send_grouped_email_with_retry ''e'' [''s/b''] retry_world)) = [1, 2, 4, 8, 16] \<and>
   length (attempts (snd (send_grouped_email_with_retry ''e'' [''s/b''] retry_world))) = 5"
proof -
  let ?a = "send_grouped_email_with_retry ''e'' [''s/a''] retry_world"
  let ?b = "send_grouped_email_with_retry ''e'' [''s/b''] retry_world"
  have n2: "2 \<le> MAX_RETRIES" and n5: "5 \<le> MAX_RETRIES" by (simp_all add: MAX_RETRIES_def)
  have a0: "\<not> attempt_ok [''s/a''] retry_world 0" "\<not> attempt_ok [''s/a''] retry_world 1"
    "attempt_ok [''s/a''] retry_world 2"
    by (simp_all add: attempt_ok_def retry_world_def)
  have fa: "\<forall>k<2. \<not> attempt_ok [''s/a''] retry_world (length (attempts retry_world) + k)"
    by (simp add: attempt_ok_def retry_world_def)
  have sa: "2 < MAX_RETRIES \<longrightarrow> attempt_ok [''s/a''] retry_world (length (attempts retry_world) + 2)"
    by (simp add: attempt_ok_def retry_world_def)
  have fb: "\<forall>k<5. \<not> attempt_ok [''s/b''] retry_world (length (attempts retry_world) + k)"
    by (simp add: attempt_ok_def retry_world_def)
  have sb: "5 < MAX_RETRIES \<longrightarrow> attempt_ok [''s/b''] retry_world (length (attempts retry_world) + 5)"
    by (simp add: MAX_RETRIES_def)
  have l0: "length (attempts retry_world) = 0" "sleeps retry_world = []"
    "snd (smtp retry_world k) = 3" for k
    by (simp_all add: retry_world_def)
  from retry_backoff_doubles [OF n2 fa sa, of "''e''"] obtain wa where
    wa: "?a = (2 < MAX_RETRIES, wa)"
    "sleeps wa = sleeps retry_world @ map (\<lambda>k. BASE_DELAY * 2 ^ k) [0..<2]"
    "length (attempts wa) = length (attempts retry_world) + (if 2 < MAX_RETRIES then 2 + 1 else MAX_RETRIES)"
    "\<forall>k<2. k + 1 < MAX_RETRIES \<longrightarrow>
        attempts wa ! (length (attempts retry_world) + k + 1) =
          attempts wa ! (length (attempts retry_world) + k) +
          snd (smtp retry_world (length (attempts retry_world) + k)) + BASE_DELAY * 2 ^ k"
    by blast
  have ta: "attempts wa ! 1 = attempts wa ! 0 + 3 + 1" "attempts wa ! 2 = attempts wa ! 1 + 3 + 2"
    using wa(4) [rule_format, of 0] wa(4) [rule_format, of 1]
    by (simp_all add: l0 MAX_RETRIES_def BASE_DELAY_def numeral_2_eq_2)
  from wa(2) have sla: "sleeps wa = [1, 2]"
    by (simp add: l0 BASE_DELAY_def upt_rec [of 0] upt_rec [of 1] numeral_2_eq_2)
  from wa(3) have la: "length (attempts wa) = 3" by (simp add: l0 MAX_RETRIES_def)
  from wa(1) have ra: "fst ?a = True" "snd ?a = wa" by (simp_all add: MAX_RETRIES_def)
  from retry_backoff_doubles [OF n5 fb sb, of "''e''"] obtain wb where
    wb: "?b = (5 < MAX_RETRIES, wb)"
    "sleeps wb = sleeps retry_world @ map (\<lambda>k. BASE_DELAY * 2 ^ k) [0..<5]"
    "length (attempts wb) = length (attempts retry_world) + (if 5 < MAX_RETRIES then 5 + 1 else MAX_RETRIES)"
    by blast
  from wb(1) have rb: "fst ?b = False" "snd ?b = wb" by (simp_all add: MAX_RETRIES_def)
  have "[0..<5] = [0, 1, 2, 3, 4]" by (simp add: upt_rec)
  with wb(2) have slb: "sleeps wb = [1, 2, 4, 8, 16]" by (simp add: l0 BASE_DELAY_def)
  from wb(3) have lb: "length (attempts wb) = 5" by (simp add: l0 MAX_RETRIES_def)
  from n2 a0 ra sla la ta rb slb lb show ?thesis by simp
qed

lemma limiter_admission_ge: "now \<le> limiter_admission calls period hist now"
  by (simp add: limiter_admission_def)

lemma limiter_inv_later: "limiter_inv calls period hist now \<Longrightarrow> now \<le> now' \<Longrightarrow>
   limiter_inv calls period hist now'"
  by (auto simp: limiter_inv_def)

lemma limiter_inv_admit:
  assumes inv: "limiter_inv calls period hist now" and c: "0 < calls"
  shows "limiter_inv calls period (hist @ [limiter_admission calls period hist now])
           (limiter_admission calls period hist now)"
proof -
  let ?t = "limiter_admission calls period hist now"
  have ge: "now \<le> ?t" by (rule limiter_admission_ge)
  from inv have s: "sorted hist" and b: "\<forall>a \<in> set hist. a \<le> now"
    and g: "\<forall>i. i + calls < length hist \<longrightarrow> hist ! i + period \<le> hist ! (i + calls)"
    by (simp_all add: limiter_inv_def)
  from b ge have b': "\<forall>a \<in> set hist. a \<le> ?t" by auto
  with s have s': "sorted (hist @ [?t])" by (simp add: sorted_append)
  have g': "\<forall>i. i + calls < length (hist @ [?t]) \<longrightarrow>
      (hist @ [?t]) ! i + period \<le> (hist @ [?t]) ! (i + calls)"
  proof (intro allI impI)
    fix i assume i: "i + calls < length (hist @ [?t])"
    with c have il: "i < length hist" by simp
    show "(hist @ [?t]) ! i + period \<le> (hist @ [?t]) ! (i + calls)"
    proof (cases "i + calls < length hist")
      case True
      with g il show ?thesis by (simp add: nth_append)
    next
      case False
      with i have e: "i + calls = length hist" by simp
      then have "\<not> length hist < calls" and "i = length hist - calls" by simp_all
      then have "hist ! i + period \<le> ?t" by (simp add: limiter_admission_def)
      with e il show ?thesis by (simp add: nth_append)
    qed
  qed
  from s' b' g' show ?thesis by (simp add: limiter_inv_def)
qed

lemma filter_after_prefix:
  assumes "\<forall>a \<in> set (take m xs). \<not> P a"
  shows "length (filter P xs) \<le> length xs - m"
proof -
  have "filter P xs = filter P (take m xs) @ filter P (drop m xs)"
    by (metis append_take_drop_id filter_append)
  also have "filter P (take m xs) = []"
    using assms by (simp only: filter_empty_conv)
  finally have "length (filter P xs) = length (filter P (drop m xs))" by simp
  also have "\<dots> \<le> length (drop m xs)" by (rule length_filter_le)
  finally show ?thesis by simp
qed

lemma limiter_inv_window:
  "limiter_inv calls period hist now \<Longrightarrow> in_window t period hist \<le> calls"
proof (induction hist arbitrary: now rule: rev_induct)
  case Nil
  then show ?case by (simp add: in_window_def)
next
  case (snoc x hist)
  let ?P = "\<lambda>a. t \<le> a \<and> a < t + period"
  let ?h = "hist @ [x]"
  from snoc.prems have s: "sorted ?h"
    and g: "\<forall>i. i + calls < length ?h \<longrightarrow> ?h ! i + period \<le> ?h ! (i + calls)"
    by (simp_all add: limiter_inv_def)
  show ?case
  proof (cases "?P x")
    case False
    have "limiter_inv calls period hist x"
      unfolding limiter_inv_def
    proof (intro conjI allI impI)
      from s show "sorted hist" by (simp add: sorted_append)
      from s show "\<forall>a \<in> set hist. a \<le> x" by (simp add: sorted_append)
    next
      fix i assume i: "i + calls < length hist"
      with g have "?h ! i + period \<le> ?h ! (i + calls)" by simp
      with i show "hist ! i + period \<le> hist ! (i + calls)" by (simp add: nth_append)
    qed
    from snoc.IH [OF this] False show ?thesis by (auto simp: in_window_def)
  next
    case True
    let ?m = "length ?h - calls"
    have old: "\<not> ?P a" if "a \<in> set (take ?m ?h)" for a
    proof -
      from that obtain i where i0: "i < length (take ?m ?h)" "take ?m ?h ! i = a"
        unfolding in_set_conv_nth by blast
      then have i: "i < ?m" "a = ?h ! i"
        by (simp_all only: length_take min_less_iff_conj nth_take)
      then have ic: "i + calls < length ?h" by simp
      with g have "?h ! i + period \<le> ?h ! (i + calls)" by blast
      also have "?h ! (i + calls) \<le> ?h ! (length ?h - 1)"
        using s ic by (intro sorted_nth_mono) simp_all
      also have "?h ! (length ?h - 1) = x" by simp
      finally have "a + period \<le> x" using i(2) by simp
      with True show ?thesis by simp
    qed
    from old have "length (filter ?P ?h) \<le> length ?h - ?m"
      by (intro filter_after_prefix) blast
    also have "\<dots> \<le> calls" by simp
    finally show ?thesis by (simp add: in_window_def)
  qed
qed

text \<open>What the retry loop and the archival leave alone.\<close>

lemma retry_loop_frame:
  "retry_loop ks email atts w = (ok, w') \<Longrightarrow>
   files w' = files w \<and> faulty w' = faulty w \<and> smtp w' = smtp w \<and> admitted w' = admitted w \<and>
   clock w \<le> clock w' \<and> length (attempts w') \<le> length (attempts w) + length ks \<and>
   length (attempts w) \<le> length (attempts w') \<and>
   (ks \<noteq> [] \<longrightarrow> length (attempts w) < length (attempts w'))"
proof (induction ks arbitrary: w)
  case Nil
  then show ?case by auto
next
  case (Cons k ks)
  show ?case
  proof (cases "attempt_ok atts w (length (attempts w))")
    case True
    from Cons.prems show ?thesis
      unfolding retry_loop_success [OF True] by auto
  next
    case False
    from Cons.prems have "retry_loop ks email atts (after_failure email k w) = (ok, w')"
      unfolding retry_loop_fail [OF False] .
    from Cons.IH [OF this] show ?thesis by auto
  qed
qed

lemma send_frame:
  assumes "send_grouped_email_with_retry email atts w = (ok, w')"
  shows "files w' = files w" "faulty w' = faulty w" "smtp w' = smtp w"
    "admitted w' = admitted w @ [limiter_admission CALLS_PER_MINUTE PERIOD (admitted w) (clock w)]"
    "limiter_admission CALLS_PER_MINUTE PERIOD (admitted w) (clock w) \<le> clock w'"
    "length (attempts w) < length (attempts w')"
    "length (attempts w') \<le> length (attempts w) + MAX_RETRIES"
proof -
  from assms have r: "retry_loop [0..<MAX_RETRIES] email atts (rate_limit w) = (ok, w')"
    by (simp add: send_grouped_email_with_retry_def)
  have ne: "[0..<MAX_RETRIES] \<noteq> []" by (simp add: MAX_RETRIES_def)
  note f = retry_loop_frame [OF r]
  from f show "files w' = files w" "faulty w' = faulty w" "smtp w' = smtp w" by simp_all
  from f show "admitted w' = admitted w @ [limiter_admission CALLS_PER_MINUTE PERIOD (admitted w) (clock w)]"
    by (simp add: rate_limit_def Let_def)
  from f show "limiter_admission CALLS_PER_MINUTE PERIOD (admitted w) (clock w) \<le> clock w'"
    by (simp add: rate_limit_def Let_def)
  from f ne show "length (attempts w) < length (attempts w')" by simp
  from f show "length (attempts w') \<le> length (attempts w) + MAX_RETRIES" by simp
qed

lemma move_frame:
  "move src dst w = Inr w' \<Longrightarrow>
   faulty w' = faulty w \<and> smtp w' = smtp w \<and> attempts w' = attempts w \<and>
   admitted w' = admitted w \<and> sleeps w' = sleeps w \<and> clock w' = clock w \<and> log w' = log w"
  by (auto simp: move_def split: option.splits if_splits)

lemma archive_one_frame:
  "archive_one p pf pd w = Inr w' \<Longrightarrow>
   faulty w' = faulty w \<and> smtp w' = smtp w \<and> attempts w' = attempts w \<and>
   admitted w' = admitted w \<and> sleeps w' = sleeps w \<and> clock w' = clock w \<and> log w' = log w"
  by (auto simp: archive_one_def Let_def makedirs_def dest!: move_frame
      split: sum.splits if_splits)

lemma archive_frame:
  "archive atts pf pd w = (r, w') \<Longrightarrow>
   faulty w' = faulty w \<and> smtp w' = smtp w \<and> attempts w' = attempts w \<and>
   admitted w' = admitted w \<and> sleeps w' = sleeps w \<and> clock w' = clock w \<and> log w' = log w"
proof (induction atts arbitrary: w)
  case Nil
  then show ?case by simp
next
  case (Cons p atts)
  show ?case
  proof (cases "archive_one p pf pd w")
    case (Inl e)
    with Cons.prems show ?thesis by simp
  next
    case (Inr w1)
    with Cons.prems have "archive atts pf pd w1 = (r, w')" by simp
    from Cons.IH [OF this] archive_one_frame [OF Inr] show ?thesis by simp
  qed
qed

lemma dispatch_all_limiter:
  assumes "limiter_inv CALLS_PER_MINUTE PERIOD (admitted w) (clock w)"
    and "dispatch_all gs pf pd w = (r, w')"
  shows "limiter_inv CALLS_PER_MINUTE PERIOD (admitted w') (clock w') \<and>
     (\<exists>m. length (admitted w') = length (admitted w) + m \<and> m \<le> length gs \<and>
        (r = None \<longrightarrow> m = length gs) \<and>
        length (attempts w) + m \<le> length (attempts w') \<and>
        length (attempts w') \<le> length (attempts w) + MAX_RETRIES * m)"
  using assms
proof (induction gs arbitrary: w)
  case Nil
  then show ?case by simp
next
  case (Cons g gs)
  obtain email atts where g: "g = (email, atts)" by (cases g)
  obtain ok w1 where s: "send_grouped_email_with_retry email atts w = (ok, w1)"
    by (cases "send_grouped_email_with_retry email atts w")
  let ?t = "limiter_admission CALLS_PER_MINUTE PERIOD (admitted w) (clock w)"
  note f = send_frame [OF s]
  have "limiter_inv CALLS_PER_MINUTE PERIOD (admitted w @ [?t]) ?t"
    using Cons.prems(1) by (intro limiter_inv_admit) (simp_all add: CALLS_PER_MINUTE_def)
  with f(4,5) have inv1: "limiter_inv CALLS_PER_MINUTE PERIOD (admitted w1) (clock w1)"
    using limiter_inv_later by simp
  have a1: "length (admitted w1) = length (admitted w) + 1" using f(4) by simp
  have step: ?case
    if inv2: "limiter_inv CALLS_PER_MINUTE PERIOD (admitted w2) (clock w2)"
      and a2: "admitted w2 = admitted w1" "attempts w2 = attempts w1"
      and d: "dispatch_all gs pf pd w2 = (r, w')" for w2
  proof -
    from Cons.IH [OF inv2 d] obtain m where
      i: "limiter_inv CALLS_PER_MINUTE PERIOD (admitted w') (clock w')"
      and m: "length (admitted w') = length (admitted w2) + m" "m \<le> length gs"
        "r = None \<longrightarrow> m = length gs" "length (attempts w2) + m \<le> length (attempts w')"
        "length (attempts w') \<le> length (attempts w2) + MAX_RETRIES * m"
      by blast
    have "length (admitted w') = length (admitted w) + Suc m" using m(1) a2 a1 by simp
    moreover have "Suc m \<le> length (g # gs)" using m(2) by simp
    moreover have "r = None \<longrightarrow> Suc m = length (g # gs)" using m(3) by simp
    moreover have "length (attempts w) + Suc m \<le> length (attempts w')"
      using m(4) a2 f(6) by simp
    moreover have "length (attempts w') \<le> length (attempts w) + MAX_RETRIES * Suc m"
      using m(5) a2 f(7) by simp
    ultimately show ?thesis using i by blast
  qed
  show ?case
  proof (cases ok)
    case False
    with Cons.prems(2) s g have "dispatch_all gs pf pd w1 = (r, w')" by simp
    with inv1 show ?thesis by (intro step [of w1]) simp_all
  next
    case True
    obtain ra w2 where a: "archive atts pf pd w1 = (ra, w2)" by (cases "archive atts pf pd w1")
    note af = archive_frame [OF a]
    from af inv1 have inv2: "limiter_inv CALLS_PER_MINUTE PERIOD (admitted w2) (clock w2)"
      by simp
    show ?thesis
    proof (cases ra)
      case None
      with Cons.prems(2) s g True a have "dispatch_all gs pf pd w2 = (r, w')" by simp
      with inv2 af show ?thesis by (intro step [of w2]) simp_all
    next
      case (Some e)
      with Cons.prems(2) s g True a have r: "r = Some e" "w' = w2" by simp_all
      have "length (admitted w') = length (admitted w) + 1" using r af a1 by simp
      moreover have "length (attempts w) + 1 \<le> length (attempts w')" using r af f(6) by simp
      moreover have "length (attempts w') \<le> length (attempts w) + MAX_RETRIES * 1"
        using r af f(7) by simp
      moreover have "(1::nat) \<le> length (g # gs)" by simp
      ultimately show ?thesis using inv2 r by blast
    qed
  qed
qed

lemma filter_all_suffix:
  assumes "\<forall>a \<in> set (drop m xs). P a"
  shows "length xs - m \<le> length (filter P xs)"
proof -
  have "filter P xs = filter P (take m xs) @ filter P (drop m xs)"
    by (metis append_take_drop_id filter_append)
  moreover have "filter P (drop m xs) = drop m xs"
    using assms by (simp only: filter_id_conv)
  ultimately have "length (filter P xs) = length (filter P (take m xs)) + length (drop m xs)"
    by simp
  then show ?thesis by simp
qed

lemma limiter_admission_first:
  assumes s: "sorted hist" and c: "0 < calls"
  shows "now \<le> limiter_admission calls period hist now"
    and "recent period hist (limiter_admission calls period hist now) < calls"
    and "\<forall>t. now \<le> t \<and> t < limiter_admission calls period hist now \<longrightarrow>
           calls \<le> recent period hist t"
proof -
  let ?t = "limiter_admission calls period hist now"
  show "now \<le> ?t" by (rule limiter_admission_ge)
  show "recent period hist ?t < calls"
  proof (cases "length hist < calls")
    case True
    have "recent period hist ?t \<le> length hist" by (simp add: recent_def)
    with True show ?thesis by simp
  next
    case False
    let ?m = "length hist - calls"
    from False c have m: "?m < length hist" by simp
    have t: "hist ! ?m + period \<le> ?t" using False by (simp add: limiter_admission_def)
    have "\<forall>a \<in> set (take (Suc ?m) hist). \<not> ?t < a + period"
    proof
      fix a assume "a \<in> set (take (Suc ?m) hist)"
      then obtain i where i0: "i < length (take (Suc ?m) hist)" "take (Suc ?m) hist ! i = a"
        unfolding in_set_conv_nth by blast
      then have i: "i \<le> ?m" "a = hist ! i" by simp_all
      with s m have "a \<le> hist ! ?m" by (simp add: sorted_nth_mono)
      with t show "\<not> ?t < a + period" by simp
    qed
    then have "length (filter (\<lambda>a. ?t < a + period) hist) \<le> length hist - Suc ?m"
      by (rule filter_after_prefix)
    with False c show ?thesis by (simp add: recent_def)
  qed
  show "\<forall>t. now \<le> t \<and> t < ?t \<longrightarrow> calls \<le> recent period hist t"
  proof (intro allI impI)
    fix t assume t: "now \<le> t \<and> t < ?t"
    then have nl: "\<not> length hist < calls"
      by (auto simp: limiter_admission_def)
    let ?m = "length hist - calls"
    from t nl have lt: "t < hist ! ?m + period"
      by (auto simp: limiter_admission_def)
    have "\<forall>a \<in> set (drop ?m hist). t < a + period"
    proof
      fix a assume "a \<in> set (drop ?m hist)"
      then obtain i where i0: "i < length (drop ?m hist)" "drop ?m hist ! i = a"
        unfolding in_set_conv_nth by blast
      then have i: "?m + i < length hist" "a = hist ! (?m + i)" by simp_all
      with s have "hist ! ?m \<le> a" by (simp add: sorted_nth_mono)
      with lt show "t < a + period" by simp
    qed
    then have "length hist - ?m \<le> length (filter (\<lambda>a. t < a + period) hist)"
      by (rule filter_all_suffix)
    with nl show "calls \<le> recent period hist t" by (simp add: recent_def)
  qed
qed

lemma retry_loop_attempts:
  "retry_loop ks email atts w = (ok, w') \<Longrightarrow>
   \<exists>more. attempts w' = attempts w @ more \<and> (ks \<noteq> [] \<longrightarrow> more \<noteq> [] \<and> hd more = clock w)"
proof (induction ks arbitrary: w)
  case Nil
  then show ?case by auto
next
  case (Cons k ks)
  show ?case
  proof (cases "attempt_ok atts w (length (attempts w))")
    case True
    from Cons.prems show ?thesis
      unfolding retry_loop_success [OF True] by auto
  next
    case False
    from Cons.prems have "retry_loop ks email atts (after_failure email k w) = (ok, w')"
      unfolding retry_loop_fail [OF False] .
    from Cons.IH [OF this] obtain more where
      "attempts w' = attempts (after_failure email k w) @ more" by blast
    then have "attempts w' = attempts w @ (clock w # more)" by simp
    then show ?thesis by (intro exI [of _ "clock w # more"]) simp
  qed
qed

lemma send_first_attempt:
  assumes "send_grouped_email_with_retry email atts w = (ok, w')"
  shows "\<exists>more. attempts w' =
     attempts w @ limiter_admission CALLS_PER_MINUTE PERIOD (admitted w) (clock w) # more"
proof -
  from assms have r: "retry_loop [0..<MAX_RETRIES] email atts (rate_limit w) = (ok, w')"
    by (simp add: send_grouped_email_with_retry_def)
  have ne: "[0..<MAX_RETRIES] \<noteq> []" by (simp add: MAX_RETRIES_def)
  from retry_loop_attempts [OF r] ne obtain more where
    m: "attempts w' = attempts (rate_limit w) @ more" "more \<noteq> []" "hd more = clock (rate_limit w)"
    by blast
  have "clock (rate_limit w) = limiter_admission CALLS_PER_MINUTE PERIOD (admitted w) (clock w)"
    by (simp add: rate_limit_def Let_def)
  with m have "attempts w' = attempts w @
      limiter_admission CALLS_PER_MINUTE PERIOD (admitted w) (clock w) # tl more"
    by (cases more) simp_all
  then show ?thesis by blast
qed

lemma dispatch_all_calls:
  assumes "dispatch_all gs pf pd w = (r, w')"
  shows "\<exists>adm att. admitted w' = admitted w @ adm \<and> attempts w' = attempts w @ att \<and>
     (\<forall>i<length adm.
        adm ! i = limiter_admission CALLS_PER_MINUTE PERIOD (admitted w @ take i adm)
                    (clock (snd (dispatch_all (take i gs) pf pd w))) \<and>
        attempts w' ! length (attempts (snd (dispatch_all (take i gs) pf pd w))) = adm ! i)"
  using assms
proof (induction gs arbitrary: w)
  case Nil
  then show ?case by simp
next
  case (Cons g gs)
  obtain email atts where g: "g = (email, atts)" by (cases g)
  obtain ok w1 where s: "send_grouped_email_with_retry email atts w = (ok, w1)"
    by (cases "send_grouped_email_with_retry email atts w")
  let ?t = "limiter_admission CALLS_PER_MINUTE PERIOD (admitted w) (clock w)"
  note f = send_frame [OF s]
  from send_first_attempt [OF s] obtain more where a1: "attempts w1 = attempts w @ ?t # more"
    by blast
  obtain ra w2 where a: "archive atts pf pd w1 = (ra, w2)" by (cases "archive atts pf pd w1")
  note af = archive_frame [OF a]
  consider (stop) e where "ok" "ra = Some e" "r = Some e" "w' = w2"
    | (go) wn where "admitted wn = admitted w1" "attempts wn = attempts w1"
        "\<And>xs. dispatch_all (g # xs) pf pd w = dispatch_all xs pf pd wn"
  proof (cases ok)
    case False
    with s g have "\<And>xs. dispatch_all (g # xs) pf pd w = dispatch_all xs pf pd w1" by simp
    then show ?thesis using go [of w1] by simp
  next
    case True
    show ?thesis
    proof (cases ra)
      case None
      with True s g a have "\<And>xs. dispatch_all (g # xs) pf pd w = dispatch_all xs pf pd w2"
        by simp
      with af show ?thesis using go [of w2] by simp
    next
      case (Some e)
      with True s g a Cons.prems have "r = Some e" "w' = w2" by simp_all
      with True Some show ?thesis using stop by blast
    qed
  qed
  then show ?case
  proof cases
    case stop
    have "admitted w' = admitted w @ [?t]" using stop af f(4) by simp
    moreover have "attempts w' = attempts w @ ?t # more" using stop af a1 by simp
    moreover have "\<forall>i<length [?t].
        [?t] ! i = limiter_admission CALLS_PER_MINUTE PERIOD (admitted w @ take i [?t])
                    (clock (snd (dispatch_all (take i (g # gs)) pf pd w))) \<and>
        attempts w' ! length (attempts (snd (dispatch_all (take i (g # gs)) pf pd w))) = [?t] ! i"
      using stop af a1 by simp
    ultimately show ?thesis by blast
  next
    case go
    from Cons.prems go(3) [of gs] have d: "dispatch_all gs pf pd wn = (r, w')" by simp
    from Cons.IH [OF d] obtain adm att where
      ad: "admitted w' = admitted wn @ adm" and at: "attempts w' = attempts wn @ att"
      and per: "\<forall>i<length adm.
        adm ! i = limiter_admission CALLS_PER_MINUTE PERIOD (admitted wn @ take i adm)
                    (clock (snd (dispatch_all (take i gs) pf pd wn))) \<and>
        attempts w' ! length (attempts (snd (dispatch_all (take i gs) pf pd wn))) = adm ! i"
      by blast
    have ad': "admitted w' = admitted w @ (?t # adm)" using ad go(1) f(4) by simp
    have at': "attempts w' = attempts w @ (?t # more @ att)" using at go(2) a1 by simp
    have "\<forall>i<length (?t # adm).
        (?t # adm) ! i = limiter_admission CALLS_PER_MINUTE PERIOD (admitted w @ take i (?t # adm))
                    (clock (snd (dispatch_all (take i (g # gs)) pf pd w))) \<and>
        attempts w' ! length (attempts (snd (dispatch_all (take i (g # gs)) pf pd w))) = (?t # adm) ! i"
    proof (intro allI impI)
      fix i assume i: "i < length (?t # adm)"
      show "(?t # adm) ! i = limiter_admission CALLS_PER_MINUTE PERIOD (admitted w @ take i (?t # adm))
                    (clock (snd (dispatch_all (take i (g # gs)) pf pd w))) \<and>
        attempts w' ! length (attempts (snd (dispatch_all (take i (g # gs)) pf pd w))) = (?t # adm) ! i"
      proof (cases i)
        case 0
        then show ?thesis using at' by simp
      next
        case (Suc j)
        with i have j: "j < length adm" by simp
        have "admitted wn = admitted w @ [?t]" using go(1) f(4) by simp
        with per j Suc go(3) [of "take j gs"] show ?thesis by simp
      qed
    qed
    with ad' at' show ?thesis by blast
  qed
qed

lemma crowd_run:
  "fst (dispatch_all crowd_groups crowd_owners ''done'' crowd_world) = None"
  "admitted (snd (dispatch_all crowd_groups crowd_owners ''done'' crowd_world)) =
     [0, 1, 2, 3, 4, 5, 6, 7, 8, 9, 10, 11, 12, 13, 14, 15, 16, 17, 18, 19, 60, 61]"
  "attempts (snd (dispatch_all crowd_groups crowd_owners ''done'' crowd_world)) =
     [0, 1, 2, 3, 4, 5, 6, 7, 8, 9, 10, 11, 12, 13, 14, 15, 16, 17, 18, 19, 60, 61]"
  "clock (snd (dispatch_all (take 20 crowd_groups) crowd_owners ''done'' crowd_world)) = 20"
  "length (attempts (snd (dispatch_all (take 20 crowd_groups) crowd_owners ''done'' crowd_world))) = 20"
  by code_simp+

text \<open>
  The limiter does not count delivery attempts. In the burst run every call is let
  through at once, and twenty-one attempts start within the first minute.
\<close>

theorem limiter_counts_attempts_counterexample:
  "CALLS_PER_MINUTE < in_window 0 PERIOD (attempts (main burst_config burst_world)) \<and>
   attempts (main burst_config burst_world) =
     [0, 1, 3, 3, 4, 6, 6, 7, 9, 9, 10, 12, 12, 13, 15, 15, 16, 18, 18, 19, 21] \<and>
   admitted (main burst_config burst_world) = [0, 3, 6, 9, 12, 15, 18]"
  by code_simp

text \<open>
  C3, amended: the rate limiter is asked once per call of the dispatch function, that is
  once per recipient group, not once per delivery attempt. Within any window of 60 seconds
  at most \<^verbatim>\<open>CALLS_PER_MINUTE\<close> calls are let through. A call is never rejected: it is let
  through at the first moment, from its arrival on, at which fewer than
  \<^verbatim>\<open>CALLS_PER_MINUTE\<close> of the earlier calls were let through less than 60 seconds back, so
  it waits exactly as long as the window is full. Its first delivery attempt starts at
  that moment, and the calls make between one and \<^verbatim>\<open>MAX_RETRIES\<close> attempts each.
\<close>

theorem limiter_admits_calls_in_window:
  assumes "admitted w = []"
    and "dispatch_all email_groups pan_to_files processed_dir w = (r, w')"
  shows "(\<forall>t. in_window t PERIOD (admitted w') \<le> CALLS_PER_MINUTE) \<and>
     length (admitted w') \<le> length email_groups \<and>
     (r = None \<longrightarrow> length (admitted w') = length email_groups) \<and>
     length (attempts w) + length (admitted w') \<le> length (attempts w') \<and>
     length (attempts w') \<le> length (attempts w) + MAX_RETRIES * length (admitted w') \<and>
     (\<forall>i<length (admitted w').
        let arrival = clock (snd (dispatch_all (take i email_groups) pan_to_files processed_dir w));
            started = length (attempts (snd (dispatch_all (take i email_groups) pan_to_files
                        processed_dir w)));
            earlier = take i (admitted w');
            t = admitted w' ! i
        in arrival \<le> t \<and> recent PERIOD earlier t < CALLS_PER_MINUTE \<and>
           (\<forall>t'. arrival \<le> t' \<and> t' < t \<longrightarrow> CALLS_PER_MINUTE \<le> recent PERIOD earlier t') \<and>
           attempts w' ! started = t)"
proof -
  from assms(1) have i0: "limiter_inv CALLS_PER_MINUTE PERIOD (admitted w) (clock w)"
    by (simp add: limiter_inv_def)
  note l = dispatch_all_limiter [OF i0 assms(2)]
  from l have inv: "limiter_inv CALLS_PER_MINUTE PERIOD (admitted w') (clock w')" by blast
  then have srt: "sorted (admitted w')" by (simp add: limiter_inv_def)
  have c: "0 < CALLS_PER_MINUTE" by (simp add: CALLS_PER_MINUTE_def)
  from dispatch_all_calls [OF assms(2)] assms(1) have per: "\<forall>i<length (admitted w').
        admitted w' ! i = limiter_admission CALLS_PER_MINUTE PERIOD (take i (admitted w'))
                    (clock (snd (dispatch_all (take i email_groups) pan_to_files processed_dir w))) \<and>
        attempts w' ! length (attempts (snd (dispatch_all (take i email_groups) pan_to_files
           processed_dir w))) = admitted w' ! i"
    by auto
  have each: "let arrival = clock (snd (dispatch_all (take i email_groups) pan_to_files processed_dir w));
            started = length (attempts (snd (dispatch_all (take i email_groups) pan_to_files
                        processed_dir w)));
            earlier = take i (admitted w');
            t = admitted w' ! i
        in arrival \<le> t \<and> recent PERIOD earlier t < CALLS_PER_MINUTE \<and>
           (\<forall>t'. arrival \<le> t' \<and> t' < t \<longrightarrow> CALLS_PER_MINUTE \<le> recent PERIOD earlier t') \<and>
           attempts w' ! started = t"
    if i: "i < length (admitted w')" for i
  proof -
    let ?wi = "snd (dispatch_all (take i email_groups) pan_to_files processed_dir w)"
    let ?h = "take i (admitted w')"
    have "sorted (take i (admitted w') @ drop i (admitted w'))" using srt by simp
    then have sh: "sorted ?h" by (simp only: sorted_append)
    from per i have t: "admitted w' ! i = limiter_admission CALLS_PER_MINUTE PERIOD ?h (clock ?wi)"
      and a: "attempts w' ! length (attempts ?wi) = admitted w' ! i"
      by blast+
    note f = limiter_admission_first [OF sh c, where now = "clock ?wi" and period = PERIOD]
    from f t a show ?thesis unfolding Let_def by simp
  qed
  from l assms(1) limiter_inv_window [OF inv] each show ?thesis by auto
qed

theorem limiter_admits_calls_in_window_witness:
  "admitted crowd_world = [] \<and>
   fst (dispatch_all crowd_groups crowd_owners ''done'' crowd_world) = None \<and>
   admitted (snd (dispatch_all crowd_groups crowd_owners ''done'' crowd_world)) =
     [0, 1, 2, 3, 4, 5, 6, 7, 8, 9, 10, 11, 12, 13, 14, 15, 16, 17, 18, 19, 60, 61] \<and>
   in_window 1 PERIOD (admitted (snd (dispatch_all crowd_groups crowd_owners ''done'' crowd_world))) \<le>
     CALLS_PER_MINUTE \<and>
   in_window 0 PERIOD (admitted (snd (dispatch_all crowd_groups crowd_owners ''done'' crowd_world))) =
     CALLS_PER_MINUTE \<and>
   length (admitted (snd (dispatch_all crowd_groups crowd_owners ''done'' crowd_world))) =
     length crowd_groups \<and>
   clock (snd (dispatch_all (take 20 crowd_groups) crowd_owners ''done'' crowd_world)) = 20 \<and>
   admitted (snd (dispatch_all crowd_groups crowd_owners ''done'' crowd_world)) ! 20 = 60 \<and>
   recent PERIOD (take 20 (admitted (snd (dispatch_all crowd_groups crowd_owners ''done'' crowd_world))))
     60 < CALLS_PER_MINUTE \<and>
   CALLS_PER_MINUTE \<le>
     recent PERIOD (take 20 (admitted (snd (dispatch_all crowd_groups crowd_owners ''done'' crowd_world))))
       59 \<and>
   attempts (snd (dispatch_all crowd_groups crowd_owners ''done'' crowd_world)) ! 20 = 60"
proof -
  let ?d = "dispatch_all crowd_groups crowd_owners ''done'' crowd_world"
  let ?w20 = "snd (dispatch_all (take 20 crowd_groups) crowd_owners ''done'' crowd_world)"
  have a: "admitted crowd_world = []" by (simp add: crowd_world_def)
  have d: "?d = (fst ?d, snd ?d)" by simp
  note run = crowd_run
  note t = limiter_admits_calls_in_window [OF a d]
  from t have win: "in_window 1 PERIOD (admitted (snd ?d)) \<le> CALLS_PER_MINUTE" by blast
  have w0: "in_window 0 PERIOD (admitted (snd ?d)) = CALLS_PER_MINUTE"
    unfolding run(2) by (simp add: in_window_def PERIOD_def CALLS_PER_MINUTE_def)
  from t run(1) have len: "length (admitted (snd ?d)) = length crowd_groups" by blast
  have i: "20 < length (admitted (snd ?d))" unfolding run(2) by simp
  from t have "\<forall>i<length (admitted (snd ?d)).
        let arrival = clock (snd (dispatch_all (take i crowd_groups) crowd_owners ''done'' crowd_world));
            started = length (attempts (snd (dispatch_all (take i crowd_groups) crowd_owners
                        ''done'' crowd_world)));
            earlier = take i (admitted (snd ?d));
            t = admitted (snd ?d) ! i
        in arrival \<le> t \<and> recent PERIOD earlier t < CALLS_PER_MINUTE \<and>
           (\<forall>t'. arrival \<le> t' \<and> t' < t \<longrightarrow> CALLS_PER_MINUTE \<le> recent PERIOD earlier t') \<and>
           attempts (snd ?d) ! started = t"
    by blast
  with i have call: "clock ?w20 \<le> admitted (snd ?d) ! 20 \<and>
      recent PERIOD (take 20 (admitted (snd ?d))) (admitted (snd ?d) ! 20) < CALLS_PER_MINUTE \<and>
      (\<forall>t'. clock ?w20 \<le> t' \<and> t' < admitted (snd ?d) ! 20 \<longrightarrow>
         CALLS_PER_MINUTE \<le> recent PERIOD (take 20 (admitted (snd ?d))) t') \<and>
      attempts (snd ?d) ! length (attempts ?w20) = admitted (snd ?d) ! 20"
    unfolding Let_def by blast
  have at: "admitted (snd ?d) ! 20 = 60" unfolding run(2) by simp
  from call have r60: "recent PERIOD (take 20 (admitted (snd ?d))) 60 < CALLS_PER_MINUTE"
    unfolding at by blast
  from call have "clock ?w20 \<le> 59 \<and> (59::nat) < 60 \<longrightarrow>
      CALLS_PER_MINUTE \<le> recent PERIOD (take 20 (admitted (snd ?d))) 59"
    unfolding at by blast
  with run(4) have r59: "CALLS_PER_MINUTE \<le> recent PERIOD (take 20 (admitted (snd ?d))) 59"
    by simp
  from call run(5) have st: "attempts (snd ?d) ! 20 = 60" unfolding at by simp
  from a run(1) run(2) win w0 len run(4) at r60 r59 st show ?thesis by blast
qed

lemma dispatch_all_append:
  "dispatch_all (xs @ ys) pf pd w =
     (case dispatch_all xs pf pd w of
        (Some e, w1) \<Rightarrow> (Some e, w1)
      | (None, w1) \<Rightarrow> dispatch_all ys pf pd w1)"
proof (induction xs arbitrary: w)
  case Nil
  then show ?case by simp
next
  case (Cons g xs)
  obtain email atts where g: "g = (email, atts)" by (cases g)
  show ?case
    by (simp add: g Cons.IH split: prod.splits bool.splits option.splits)
qed

lemma archive_append:
  "archive (xs @ ys) pf pd w =
     (case archive xs pf pd w of
        (Some e, w1) \<Rightarrow> (Some e, w1)
      | (None, w1) \<Rightarrow> archive ys pf pd w1)"
  by (induction xs arbitrary: w) (simp_all split: sum.splits)





























text \<open>
  A failed move is not independent of the other files. In this run the message to the
  first recipient is sent, the move of its first receipt is refused, and then the second
  receipt of the group, which could be moved, stays in staging, and the second recipient
  is neither sent to nor archived.
\<close>

theorem move_failure_blocks_rest_counterexample:
  "InfoEmailSent ''a@x.com'' 2 \<in> set (log (main jam_config jam_world)) \<and>
   \<not> faulty jam_world ''done/FGHIJ5678K'' \<and> \<not> faulty jam_world ''done/FGHIJ5678K/f.pdf'' \<and>
   files (main jam_config jam_world) ''out/FGHIJ5678K/f.pdf'' \<noteq> None \<and>
   files (main jam_config jam_world) ''done/FGHIJ5678K/f.pdf'' = None \<and>
   files (main jam_config jam_world) ''out/LMNOP0000Q/e.pdf'' \<noteq> None \<and>
   files (main jam_config jam_world) ''done/LMNOP0000Q/e.pdf'' = None \<and>
   attempts (main jam_config jam_world) = [0] \<and>
   last (log (main jam_config jam_world)) = ErrorScript (OSError ''done/ABCDE1234F/a.pdf'')"
  by code_simp

text \<open>
  C2, amended: nothing around the move of an attachment catches an exception. When the
  move of one attachment of a successfully sent group fails, the exception leaves both
  loops and is logged once by the handler of \<^verbatim>\<open>main\<close>, and the run ends there: the files
  moved before stay moved, and the failing file, the remaining files of the group and all
  later groups are left as they are, the later groups unsent.
\<close>

theorem move_failure_ends_run:
  assumes "\<not> faulty w (grouped_directory cfg)" "\<not> faulty w (processed_directory cfg)"
    and "listing cfg = Some entries"
    and "classify (select_pdf_files entries) (pdf_directory cfg) (grouped_directory cfg)
           (table cfg) (logw InfoLoaded w) = (results, w0)"
    and "grouping results =
           Some (earlier @ (email, before @ pdf_path # after) # rest, pan_to_files)"
    and "dispatch_all earlier pan_to_files (processed_directory cfg) w0 = (None, w1)"
    and "send_grouped_email_with_retry email (before @ pdf_path # after) w1 = (True, w2)"
    and "archive before pan_to_files (processed_directory cfg) w2 = (None, w3)"
    and "archive_one pdf_path pan_to_files (processed_directory cfg) w3 = Inl e"
  shows "main cfg w = logw (ErrorScript e) w3"
proof -
  have "archive (before @ pdf_path # after) pan_to_files (processed_directory cfg) w2 = (Some e, w3)"
    using assms(8,9) by (simp add: archive_append)
  with assms(7) have "dispatch_all ((email, before @ pdf_path # after) # rest) pan_to_files
      (processed_directory cfg) w1 = (Some e, w3)"
    by simp
  with assms(6) have "dispatch_all (earlier @ (email, before @ pdf_path # after) # rest)
      pan_to_files (processed_directory cfg) w0 = (Some e, w3)"
    by (simp add: dispatch_all_append)
  with assms(4,5) have "process_batch (select_pdf_files entries) (pdf_directory cfg)
      (grouped_directory cfg) (processed_directory cfg) (table cfg) (logw InfoLoaded w) = (Some e, w3)"
    by (simp add: process_batch_def)
  with assms(1,2,3) have "main_try cfg w = (Some e, w3)"
    by (simp add: main_try_def makedirs_def)
  then show ?thesis by (simp add: main_def)
qed

theorem move_failure_ends_run_witness:
  "\<not> faulty jam_world (grouped_directory jam_config) \<and>
   \<not> faulty jam_world (processed_directory jam_config) \<and>
   listing jam_config = Some (sample_files @ [''notes.txt'']) \<and>
   grouping (fst (classify (select_pdf_files (sample_files @ [''notes.txt''])) ''in'' ''out''
       sample_table (logw InfoLoaded jam_world))) = Some (mail_groups, mail_owners) \<and>
   fst (send_grouped_email_with_retry ''a@x.com'' [''out/ABCDE1234F/a.pdf'', ''out/FGHIJ5678K/f.pdf'']
       (snd (classify (select_pdf_files (sample_files @ [''notes.txt''])) ''in'' ''out''
          sample_table (logw InfoLoaded jam_world)))) = True \<and>
   archive_one ''out/ABCDE1234F/a.pdf'' mail_owners ''done''
     (snd (send_grouped_email_with_retry ''a@x.com'' [''out/ABCDE1234F/a.pdf'', ''out/FGHIJ5678K/f.pdf'']
       (snd (classify (select_pdf_files (sample_files @ [''notes.txt''])) ''in'' ''out''
          sample_table (logw InfoLoaded jam_world))))) = Inl (OSError ''done/ABCDE1234F/a.pdf'') \<and>
   main jam_config jam_world =
     logw (ErrorScript (OSError ''done/ABCDE1234F/a.pdf''))
       (snd (send_grouped_email_with_retry ''a@x.com'' [''out/ABCDE1234F/a.pdf'', ''out/FGHIJ5678K/f.pdf'']
          (snd (classify (select_pdf_files (sample_files @ [''notes.txt''])) ''in'' ''out''
             sample_table (logw InfoLoaded jam_world)))))"
proof -
  let ?c = "classify (select_pdf_files (sample_files @ [''notes.txt''])) ''in'' ''out''
       sample_table (logw InfoLoaded jam_world)"
  let ?atts = "[''out/ABCDE1234F/a.pdf'', ''out/FGHIJ5678K/f.pdf'']"
  let ?s = "send_grouped_email_with_retry ''a@x.com'' ?atts (snd ?c)"
  let ?e = "OSError ''done/ABCDE1234F/a.pdf''"
  have c1: "\<not> faulty jam_world (grouped_directory jam_config)"
    "\<not> faulty jam_world (processed_directory jam_config)"
    "listing jam_config = Some (sample_files @ [''notes.txt''])"
    by (simp_all add: jam_world_def jam_config_def)
  have p: "pdf_directory jam_config = ''in''" "grouped_directory jam_config = ''out''"
    "processed_directory jam_config = ''done''" "table jam_config = sample_table"
    by (simp_all add: jam_config_def)
  have g: "grouping (fst ?c) = Some (mail_groups, mail_owners)" by code_simp
  have sok: "fst ?s = True" by code_simp
  have "case archive_one ''out/ABCDE1234F/a.pdf'' mail_owners ''done'' (snd ?s) of
      Inl e \<Rightarrow> e = ?e | Inr w \<Rightarrow> False"
    by code_simp
  then have one: "archive_one ''out/ABCDE1234F/a.pdf'' mail_owners ''done'' (snd ?s) = Inl ?e"
    by (simp split: sum.splits)
  have h4: "classify (select_pdf_files (sample_files @ [''notes.txt''])) (pdf_directory jam_config)
      (grouped_directory jam_config) (table jam_config) (logw InfoLoaded jam_world) = (fst ?c, snd ?c)"
    by (simp add: p)
  have h5: "grouping (fst ?c) =
      Some ([] @ (''a@x.com'', [] @ ''out/ABCDE1234F/a.pdf'' # [''out/FGHIJ5678K/f.pdf'']) #
              [(''l@x.com'', [''out/LMNOP0000Q/e.pdf''])], mail_owners)"
    using g by (simp add: mail_groups_def)
  have h6: "dispatch_all [] mail_owners (processed_directory jam_config) (snd ?c) = (None, snd ?c)"
    by simp
  have h7: "send_grouped_email_with_retry ''a@x.com''
      ([] @ ''out/ABCDE1234F/a.pdf'' # [''out/FGHIJ5678K/f.pdf'']) (snd ?c) = (True, snd ?s)"
    using sok by (simp add: prod_eq_iff)
  have h8: "archive [] mail_owners (processed_directory jam_config) (snd ?s) = (None, snd ?s)"
    by simp
  have h9: "archive_one ''out/ABCDE1234F/a.pdf'' mail_owners (processed_directory jam_config) (snd ?s) = Inl ?e"
    using one by (simp add: p)
  from move_failure_ends_run [OF c1 h4 h5 h6 h7 h8 h9]
  have "main jam_config jam_world = logw (ErrorScript ?e) (snd ?s)" .
  with c1 g sok one show ?thesis by simp
qed

end
